theory Spec2Isabelle
  imports Main
begin

section \<open>The multi-camera pipeline \<open>VisualNPipeline\<close> (visual-npipeline.cc)\<close>

text \<open>
  The development embeds \<open>aslam::VisualNPipeline\<close>: its constructor, \<open>processImage\<close>,
  the worker task \<open>work\<close> with its critical section, and the accessors \<open>getNext\<close>
  and \<open>getLatestAndClear\<close>.

  Conventions.
  \<^item> A failed glog \<open>CHECK\<close> aborts the process; it is the error value \<open>CheckFailure\<close>.
    Undefined behaviour of C++ (reading a vector out of range, dereferencing a null
    pointer, overflow of a signed subtraction) is an error value of its own, so that no
    theorem speaks about it by accident.
  \<^item> \<open>size_t\<close> values are \<open>nat\<close> (they are only compared and incremented below a
    size). \<open>int64_t\<close> values are \<open>int\<close>, and the one place that does arithmetic on
    them, \<open>std::abs(a - b)\<close>, checks the 64-bit range explicitly.
  \<^item> \<open>std::map<int64_t, std::shared_ptr<VisualNFrame>>\<close> is the list of its entries in
    iteration order (ascending keys, no key twice); an iterator is a position in that
    list, \<open>end()\<close> is the length. A bundle is created inside \<open>work\<close>, is held by exactly
    one of the two maps until a consumer takes it, and is never reachable from two
    entries, so the shared pointers are modelled by value.
  \<^item> Everything between taking and releasing \<open>mutex_\<close> is one atomic state transformer.
\<close>

datatype error = CheckFailure | OutOfRangeAccess | NullDereference | SignedOverflow

subsection \<open>Cameras, frames, per-camera pipelines\<close>

text \<open>The value of \<open>std::shared_ptr<Camera>::get()\<close>: \<open>None\<close> is the null pointer,
  \<open>Some a\<close> the address of a camera object. Pointer comparison is equality.\<close>

type_synonym camera_ptr = "nat option"

text \<open>\<open>cv::Mat\<close> is opaque; an image is identified by a number.\<close>

type_synonym image = nat

text \<open>Modelled from the spec: VisualFrame (class declared, not defined, in
  visual-pipeline.h) is a per-camera frame with a nanosecond timestamp and an opaque
  payload.\<close>

record VisualFrame =
  getTimestampNanoseconds :: int
  payload :: image

text \<open>\<open>VisualPipeline\<close> (visual-pipeline.h): the two camera pointers and the virtual
  processing of one image with its timestamp into a frame.\<close>

record VisualPipeline =
  getInputCameraShared :: camera_ptr
  getOutputCameraShared :: camera_ptr
  processImage_of :: "image \<Rightarrow> int \<Rightarrow> VisualFrame"

text \<open>Modelled from the spec: NCamera (aslam/cameras/ncamera.h) is an ordered list of
  camera descriptors that exposes its count and a per-index accessor; the accessor
  checks its index.\<close>

record NCamera =
  cameras :: "camera_ptr list"

definition numCameras :: "NCamera \<Rightarrow> nat" where
  "numCameras nc = length (cameras nc)"

definition getCameraShared :: "NCamera \<Rightarrow> nat \<Rightarrow> error + camera_ptr" where
  "getCameraShared nc i = (if i < numCameras nc then Inr (cameras nc ! i) else Inl CheckFailure)"

subsection \<open>Bundles (\<open>VisualNFrame\<close>)\<close>

text \<open>Modelled from the spec: VisualNFrame (aslam/frames/visual-nframe.h) is a fixed-size
  array of \<open>numCameras\<close> optional slots, one per camera index; it is created with every
  slot empty, and its accessors check the index.\<close>

type_synonym VisualNFrame = "VisualFrame option list"

definition new_VisualNFrame :: "NCamera option \<Rightarrow> error + VisualNFrame" where
  "new_VisualNFrame ncameras =
     (case ncameras of None \<Rightarrow> Inl CheckFailure
      | Some nc \<Rightarrow> Inr (replicate (numCameras nc) None))"

definition getNumFrames :: "VisualNFrame \<Rightarrow> nat" where
  "getNumFrames nf = length nf"

definition isFrameSet :: "VisualNFrame \<Rightarrow> nat \<Rightarrow> bool" where
  "isFrameSet nf i = (i < length nf \<and> nf ! i \<noteq> None)"

definition getFrameShared :: "VisualNFrame \<Rightarrow> nat \<Rightarrow> error + VisualFrame option" where
  "getFrameShared nf i = (if i < length nf then Inr (nf ! i) else Inl CheckFailure)"

definition setFrame :: "VisualNFrame \<Rightarrow> nat \<Rightarrow> VisualFrame \<Rightarrow> error + VisualNFrame" where
  "setFrame nf i frame = (if i < length nf then Inr (nf[i := Some frame]) else Inl CheckFailure)"

subsection \<open>\<open>std::map\<close> with \<open>int64_t\<close> keys\<close>

type_synonym 'v int64_map = "(int \<times> 'v) list"

text \<open>The representation invariant of a map: keys strictly ascending.\<close>

definition map_ok :: "'v int64_map \<Rightarrow> bool" where
  "map_ok m = sorted_wrt (<) (map fst m)"

text \<open>\<open>lower_bound(v)\<close>: the position of the first entry whose key is not less than \<open>v\<close>,
  or \<open>end()\<close>.\<close>

fun lower_bound :: "'v int64_map \<Rightarrow> int \<Rightarrow> nat" where
  "lower_bound [] v = 0"
| "lower_bound ((k, b) # m) v = (if k < v then Suc (lower_bound m v) else 0)"

text \<open>\<open>insert(value)\<close>: the new map, the position of the entry with that key, and
  whether the value was inserted; an entry already stored under the key is kept.\<close>

fun map_insert :: "int \<times> 'v \<Rightarrow> 'v int64_map \<Rightarrow> 'v int64_map \<times> nat \<times> bool" where
  "map_insert kv [] = ([kv], 0, True)"
| "map_insert kv (e # m) =
     (if fst kv < fst e then (kv # e # m, 0, True)
      else if fst e < fst kv then
        (case map_insert kv m of (m', it, inserted) \<Rightarrow> (e # m', Suc it, inserted))
      else (e # m, 0, False))"

text \<open>\<open>erase(it)\<close> for a valid position \<open>it\<close>.\<close>

definition map_erase :: "'v int64_map \<Rightarrow> nat \<Rightarrow> 'v int64_map" where
  "map_erase m it = take it m @ drop (Suc it) m"

subsection \<open>64-bit signed arithmetic\<close>

definition INT64_MIN :: int where
  "INT64_MIN = - (2 ^ 63)"

definition INT64_MAX :: int where
  "INT64_MAX = 2 ^ 63 - 1"

definition is_int64 :: "int \<Rightarrow> bool" where
  "is_int64 x = (INT64_MIN \<le> x \<and> x \<le> INT64_MAX)"

text \<open>\<open>std::abs(a - b)\<close> on \<open>int64_t\<close>: the subtraction must not overflow, and neither
  must the negation inside \<open>std::abs\<close>.\<close>

definition abs_diff :: "int \<Rightarrow> int \<Rightarrow> error + int" where
  "abs_diff a b =
     (let d = a - b in
      if \<not> is_int64 d then Inl SignedOverflow
      else if d = INT64_MIN then Inl SignedOverflow
      else Inr \<bar>d\<bar>)"

subsection \<open>The pipeline object\<close>

text \<open>A task of the thread pool: the arguments bound to \<open>VisualNPipeline::work\<close>.\<close>

type_synonym task = "nat \<times> image \<times> int"

text \<open>The members of the class. Modelled from the spec: ThreadPool
  (aslam/common/thread-pool.h) is a worker pool whose \<open>enqueue\<close> schedules a task and
  returns at once; \<open>thread_pool\<close> is its queue of tasks not yet run. \<open>cv_new_nframe\<close>
  counts the calls of \<open>notify_all\<close>, \<open>log_warnings\<close> the messages written with
  \<open>LOG(WARNING)\<close>.\<close>

record VisualNPipeline =
  pipelines :: "VisualPipeline option list"
  input_camera_system :: "NCamera option"
  output_camera_system :: "NCamera option"
  timestamp_tolerance_ns :: int
  processing :: "VisualNFrame int64_map"
  completed :: "VisualNFrame int64_map"
  thread_pool :: "task list"
  num_threads_of :: nat
  cv_new_nframe :: nat
  log_warnings :: nat

subsection \<open>Constructor\<close>

text \<open>The loop over the per-camera pipelines (the \<open>for\<close> of the constructor).\<close>

function check_pipelines ::
  "VisualPipeline option list \<Rightarrow> NCamera \<Rightarrow> NCamera \<Rightarrow> nat \<Rightarrow> error + unit" where
  "check_pipelines ps ic oc i =
     (if i < length ps then
        (case ps ! i of
           None \<Rightarrow> Inl CheckFailure
         | Some p \<Rightarrow>
             (case getCameraShared ic i of
                Inl e \<Rightarrow> Inl e
              | Inr cin \<Rightarrow>
                  if cin \<noteq> getInputCameraShared p then Inl CheckFailure
                  else
                    (case getCameraShared oc i of
                       Inl e \<Rightarrow> Inl e
                     | Inr cout \<Rightarrow>
                         if cout \<noteq> getOutputCameraShared p then Inl CheckFailure
                         else check_pipelines ps ic oc (Suc i))))
      else Inr ())"
  by pat_completeness auto
termination
  by (relation "measure (\<lambda>(ps, ic, oc, i). length ps - i)") auto

declare check_pipelines.simps [simp del]

definition VisualNPipeline_ctor ::
  "nat \<Rightarrow> VisualPipeline option list \<Rightarrow> NCamera option \<Rightarrow> NCamera option \<Rightarrow> int
     \<Rightarrow> error + VisualNPipeline" where
  "VisualNPipeline_ctor num_threads ps input_cs output_cs tolerance =
     (case input_cs of
        None \<Rightarrow> Inl CheckFailure
      | Some ic \<Rightarrow>
          (case output_cs of
             None \<Rightarrow> Inl CheckFailure
           | Some oc \<Rightarrow>
               if \<not> numCameras ic > 0 then Inl CheckFailure
               else if numCameras ic \<noteq> numCameras oc then Inl CheckFailure
               else if numCameras ic \<noteq> length ps then Inl CheckFailure
               else if \<not> tolerance \<ge> 0 then Inl CheckFailure
               else
                 (case check_pipelines ps ic oc 0 of
                    Inl e \<Rightarrow> Inl e
                  | Inr _ \<Rightarrow>
                      if \<not> num_threads > 0 then Inl CheckFailure
                      else Inr \<lparr> pipelines = ps,
                                 input_camera_system = input_cs,
                                 output_camera_system = output_cs,
                                 timestamp_tolerance_ns = tolerance,
                                 processing = [],
                                 completed = [],
                                 thread_pool = [],
                                 num_threads_of = num_threads,
                                 cv_new_nframe = 0,
                                 log_warnings = 0 \<rparr>)))"

subsection \<open>\<open>processImage\<close>\<close>

definition processImage :: "VisualNPipeline \<Rightarrow> nat \<Rightarrow> image \<Rightarrow> int \<Rightarrow> VisualNPipeline" where
  "processImage s camera_index img timestamp =
     s\<lparr>thread_pool := thread_pool s @ [(camera_index, img, timestamp)]\<rparr>"

subsection \<open>Accessors of the completion queue\<close>

definition getNumFramesComplete :: "VisualNPipeline \<Rightarrow> nat" where
  "getNumFramesComplete s = length (completed s)"

definition getNumFramesProcessing :: "VisualNPipeline \<Rightarrow> nat" where
  "getNumFramesProcessing s = length (processing s)"

definition getNext :: "VisualNPipeline \<Rightarrow> VisualNFrame option \<times> VisualNPipeline" where
  "getNext s =
     (if completed s \<noteq> [] then
        (let it = 0;
             rval = Some (snd (completed s ! it))
         in (rval, s\<lparr>completed := map_erase (completed s) it\<rparr>))
      else (None, s))"

text \<open>A consumer that calls \<open>getNext\<close> \<open>n\<close> times in a row: the results in call
  order and the final state.\<close>

fun getNext_seq :: "nat \<Rightarrow> VisualNPipeline \<Rightarrow> VisualNFrame option list \<times> VisualNPipeline" where
  "getNext_seq 0 s = ([], s)"
| "getNext_seq (Suc n) s =
     (case getNext s of (rval, s') \<Rightarrow>
        (case getNext_seq n s' of (rvals, s'') \<Rightarrow> (rval # rvals, s'')))"

text \<open>The \<open>while\<close> loop of \<open>getLatestAndClear\<close>: starting at \<open>begin()\<close>, it erases
  entries as long as the current one has a key \<open>\<le> timestamp\<close>.\<close>

fun erase_while_le :: "'v int64_map \<Rightarrow> int \<Rightarrow> 'v int64_map" where
  "erase_while_le [] timestamp = []"
| "erase_while_le (e # m) timestamp =
     (if fst e \<le> timestamp then erase_while_le m timestamp else e # m)"

definition getLatestAndClear :: "VisualNPipeline \<Rightarrow> VisualNFrame option \<times> VisualNPipeline" where
  "getLatestAndClear s =
     (if completed s \<noteq> [] then
        (let it = length (completed s) - 1;
             rval = Some (snd (completed s ! it));
             timestamp = fst (completed s ! it)
         in (rval, s\<lparr>completed := [],
                     processing := erase_while_le (processing s) timestamp\<rparr>))
      else (None, s))"

subsection \<open>The worker task \<open>work\<close>\<close>

text \<open>The search for an existing bundle (from \<open>bool create_new_nframes = false\<close> to the
  test against the tolerance). The result is \<open>proc_it\<close> and \<open>create_new_nframes\<close>. When
  the map is empty the source leaves \<open>proc_it\<close> unassigned until the insertion that
  follows; the position returned in that case is \<open>end()\<close>.\<close>

definition find_nframe :: "int \<Rightarrow> VisualNFrame int64_map \<Rightarrow> int \<Rightarrow> error + (nat \<times> bool)" where
  "find_nframe tolerance proc ts =
     (if proc = [] then Inr (length proc, True)
      else
        (let it = lower_bound proc ts;
             it = (if it \<noteq> 0 then it - 1 else it)
         in case abs_diff (fst (proc ! it)) ts of
              Inl e \<Rightarrow> Inl e
            | Inr min_time_diff \<Rightarrow>
                (let proc_it = it;
                     it = Suc it
                 in if it \<noteq> length proc then
                      (case abs_diff (fst (proc ! it)) ts of
                         Inl e \<Rightarrow> Inl e
                       | Inr time_diff \<Rightarrow>
                           if time_diff < min_time_diff
                           then Inr (it, time_diff > tolerance)
                           else Inr (proc_it, min_time_diff > tolerance))
                    else Inr (proc_it, min_time_diff > tolerance))))"

text \<open>The search followed by \<open>if(create_new_nframes) { ... insert ... }\<close>: the processing
  map and \<open>proc_it\<close> as they are when the frame is about to be installed.\<close>

definition locate_nframe ::
  "VisualNPipeline \<Rightarrow> int \<Rightarrow> error + (VisualNFrame int64_map \<times> nat)" where
  "locate_nframe s ts =
     (case find_nframe (timestamp_tolerance_ns s) (processing s) ts of
        Inl e \<Rightarrow> Inl e
      | Inr (proc_it, create_new_nframes) \<Rightarrow>
          if create_new_nframes then
            (case new_VisualNFrame (output_camera_system s) of
               Inl e \<Rightarrow> Inl e
             | Inr nframes \<Rightarrow>
                 (case map_insert (ts, nframes) (processing s) of
                    (m, it, replaced) \<Rightarrow> Inr (m, it)))
          else Inr (processing s, proc_it))"

text \<open>The installation: \<open>getFrameShared\<close>, the warning when the slot is occupied, and
  \<open>setFrame\<close>. The result is the processing map and the number of warnings logged.\<close>

definition install_frame ::
  "VisualNFrame int64_map \<Rightarrow> nat \<Rightarrow> nat \<Rightarrow> VisualFrame \<Rightarrow> nat
     \<Rightarrow> error + (VisualNFrame int64_map \<times> nat)" where
  "install_frame proc proc_it camera_index frame warnings =
     (case getFrameShared (snd (proc ! proc_it)) camera_index of
        Inl e \<Rightarrow> Inl e
      | Inr existing_frame \<Rightarrow>
          (let warnings = (if existing_frame \<noteq> None then Suc warnings else warnings)
           in case setFrame (snd (proc ! proc_it)) camera_index frame of
                Inl e \<Rightarrow> Inl e
              | Inr nf \<Rightarrow> Inr (proc[proc_it := (fst (proc ! proc_it), nf)], warnings)))"

text \<open>The loop \<open>for(i = 0; i < getNumFrames(); ++i) all_received &= isFrameSet(i)\<close>.\<close>

function all_received_loop :: "VisualNFrame \<Rightarrow> nat \<Rightarrow> bool \<Rightarrow> bool" where
  "all_received_loop nf i all_received =
     (if i < getNumFrames nf
      then all_received_loop nf (Suc i) (all_received \<and> isFrameSet nf i)
      else all_received)"
  by pat_completeness auto
termination
  by (relation "measure (\<lambda>(nf, i, a). getNumFrames nf - i)") auto

declare all_received_loop.simps [simp del]

text \<open>The end of the critical section: a bundle with every frame set moves from
  \<open>processing\<close> to \<open>completed\<close> and the condition variable is notified.\<close>

definition move_if_complete ::
  "VisualNPipeline \<Rightarrow> VisualNFrame int64_map \<Rightarrow> nat \<Rightarrow> VisualNPipeline" where
  "move_if_complete s proc proc_it =
     (if all_received_loop (snd (proc ! proc_it)) 0 True then
        s\<lparr>completed := fst (map_insert (proc ! proc_it) (completed s)),
          processing := map_erase proc proc_it,
          cv_new_nframe := Suc (cv_new_nframe s)\<rparr>
      else s\<lparr>processing := proc\<rparr>)"

text \<open>The critical section of \<open>work\<close> (the block that holds \<open>mutex_\<close>), for the frame the
  per-camera pipeline produced.\<close>

definition work_locked :: "VisualNPipeline \<Rightarrow> nat \<Rightarrow> VisualFrame \<Rightarrow> error + VisualNPipeline" where
  "work_locked s camera_index frame =
     (case locate_nframe s (getTimestampNanoseconds frame) of
        Inl e \<Rightarrow> Inl e
      | Inr (proc, proc_it) \<Rightarrow>
          (case install_frame proc proc_it camera_index frame (log_warnings s) of
             Inl e \<Rightarrow> Inl e
           | Inr (proc', warnings) \<Rightarrow>
               Inr (move_if_complete (s\<lparr>log_warnings := warnings\<rparr>) proc' proc_it)))"

text \<open>\<open>work\<close>: \<open>CHECK_LE(camera_index, pipelines_.size())\<close>, then \<open>pipelines_[camera_index]\<close>
  (undefined for \<open>camera_index = pipelines_.size()\<close>), the per-camera processing, and
  the critical section.\<close>

definition work :: "VisualNPipeline \<Rightarrow> nat \<Rightarrow> image \<Rightarrow> int \<Rightarrow> error + VisualNPipeline" where
  "work s camera_index img timestamp =
     (if \<not> camera_index \<le> length (pipelines s) then Inl CheckFailure
      else if \<not> camera_index < length (pipelines s) then Inl OutOfRangeAccess
      else
        (case pipelines s ! camera_index of
           None \<Rightarrow> Inl NullDereference
         | Some p \<Rightarrow> work_locked s camera_index (processImage_of p img timestamp)))"

text \<open>The thread pool runs queued tasks in some order; the critical sections are
  serialised by the mutex and the per-camera processing has no effect on the shared
  state, so a run is a sequence of \<open>work\<close> calls. \<open>run_tasks\<close> runs the tasks of a list
  in the order of the list and stops at the first failure.\<close>

fun run_tasks :: "VisualNPipeline \<Rightarrow> task list \<Rightarrow> error + VisualNPipeline" where
  "run_tasks s [] = Inr s"
| "run_tasks s ((camera_index, img, timestamp) # ts) =
     (case work s camera_index img timestamp of
        Inl e \<Rightarrow> Inl e
      | Inr s' \<Rightarrow> run_tasks s' ts)"

subsection \<open>\<open>createTestVisualNPipeline\<close>\<close>

text \<open>Modelled from the spec: NullVisualPipeline (aslam/pipeline/visual-pipeline-null.h)
  is the pass-through processor: the frame carries the input timestamp, and its payload
  is identified by the image it was made from; the processor is constructed from one
  camera, which is both its input and its output camera.
  \<open>NCamera::createTestNCamera(n)\<close> is a camera set with \<open>n\<close> distinct cameras.\<close>

definition NullVisualPipeline :: "camera_ptr \<Rightarrow> VisualPipeline" where
  "NullVisualPipeline camera =
     \<lparr> getInputCameraShared = camera, getOutputCameraShared = camera,
       processImage_of = (\<lambda>img timestamp. \<lparr> getTimestampNanoseconds = timestamp, payload = img \<rparr>) \<rparr>"

definition createTestNCamera :: "nat \<Rightarrow> NCamera" where
  "createTestNCamera num_cameras = \<lparr> cameras = map Some [0..<num_cameras] \<rparr>"

definition createTestVisualNPipeline :: "nat \<Rightarrow> nat \<Rightarrow> int \<Rightarrow> error + VisualNPipeline" where
  "createTestVisualNPipeline num_cameras num_threads tolerance =
     (let ncamera = createTestNCamera num_cameras
      in if numCameras ncamera \<noteq> num_cameras then Inl CheckFailure
         else if \<not> list_all (\<lambda>c. c \<noteq> None) (cameras ncamera) then Inl CheckFailure
         else VisualNPipeline_ctor num_threads
                (map (\<lambda>c. Some (NullVisualPipeline c)) (cameras ncamera))
                (Some ncamera) (Some ncamera) tolerance)"

text \<open>The frame that the per-camera pipeline of a task's camera produces for the task
  (the value of \<open>frame\<close> in \<open>work\<close>), and its timestamp.\<close>

definition task_frame :: "VisualPipeline option list \<Rightarrow> task \<Rightarrow> VisualFrame" where
  "task_frame ps task =
     (case task of (camera_index, img, timestamp) \<Rightarrow>
        processImage_of (the (ps ! camera_index)) img timestamp)"

definition task_timestamp :: "VisualPipeline option list \<Rightarrow> task \<Rightarrow> int" where
  "task_timestamp ps task = getTimestampNanoseconds (task_frame ps task)"

text \<open>The pipeline that \<open>createTestVisualNPipeline\<close> returns when its checks pass.\<close>

definition test_pipeline :: "nat \<Rightarrow> nat \<Rightarrow> int \<Rightarrow> VisualNPipeline" where
  "test_pipeline num_cameras num_threads tolerance =
     \<lparr> pipelines = map (\<lambda>c. Some (NullVisualPipeline (Some c))) [0..<num_cameras],
       input_camera_system = Some (createTestNCamera num_cameras),
       output_camera_system = Some (createTestNCamera num_cameras),
       timestamp_tolerance_ns = tolerance, processing = [], completed = [], thread_pool = [],
       num_threads_of = num_threads, cv_new_nframe = 0, log_warnings = 0 \<rparr>"

subsection \<open>The invariant of a constructed pipeline\<close>

definition all_set :: "VisualNFrame \<Rightarrow> bool" where
  "all_set nf = list_all (\<lambda>f. f \<noteq> None) nf"

definition pipeline_inv :: "VisualNPipeline \<Rightarrow> bool" where
  "pipeline_inv s =
     (case output_camera_system s of
        None \<Rightarrow> False
      | Some oc \<Rightarrow>
          0 < numCameras oc \<and> numCameras oc = length (pipelines s) \<and>
          list_all (\<lambda>p. p \<noteq> None) (pipelines s) \<and>
          0 \<le> timestamp_tolerance_ns s \<and> is_int64 (timestamp_tolerance_ns s) \<and>
          map_ok (processing s) \<and> map_ok (completed s) \<and>
          list_all (\<lambda>e. length (snd e) = numCameras oc \<and> \<not> all_set (snd e)) (processing s) \<and>
          list_all (\<lambda>e. length (snd e) = numCameras oc \<and> all_set (snd e)) (completed s))"

text \<open>No signed overflow in \<open>std::abs(key - ts)\<close> for the keys of a map.\<close>

definition diffs_representable :: "'v int64_map \<Rightarrow> int \<Rightarrow> bool" where
  "diffs_representable m ts = list_all (\<lambda>e. INT64_MIN < fst e - ts \<and> fst e - ts \<le> INT64_MAX) m"

subsection \<open>Notions used to state the properties\<close>

text \<open>Processor \<open>j\<close> is present and its input and output cameras are the very objects
  stored at position \<open>j\<close> of the input and output camera systems.\<close>

definition pipeline_matches :: "VisualPipeline option list \<Rightarrow> NCamera \<Rightarrow> NCamera \<Rightarrow> nat \<Rightarrow> bool" where
  "pipeline_matches ps ic oc j =
     (case ps ! j of
        None \<Rightarrow> False
      | Some p \<Rightarrow> cameras ic ! j = getInputCameraShared p \<and> cameras oc ! j = getOutputCameraShared p)"

text \<open>The configuration the specification calls valid: equal camera counts, at least
  one camera, at least one worker, every processor present and matching.\<close>

definition valid_configuration ::
  "nat \<Rightarrow> VisualPipeline option list \<Rightarrow> NCamera \<Rightarrow> NCamera \<Rightarrow> bool" where
  "valid_configuration num_threads ps ic oc =
     (numCameras ic = numCameras oc \<and> numCameras ic = length ps \<and> 0 < numCameras ic \<and>
      0 < num_threads \<and> list_all (pipeline_matches ps ic oc) [0..<length ps])"

section \<open>Properties\<close>

subsection \<open>Ordered maps\<close>

lemma map_ok_Cons: "map_ok (e # m) = ((\<forall>x\<in>set m. fst e < fst x) \<and> map_ok m)"
  by (auto simp: map_ok_def)

lemma map_ok_Nil: "map_ok []"
  by (simp add: map_ok_def)

lemma map_ok_distinct: "map_ok m \<Longrightarrow> distinct (map fst m)"
  unfolding map_ok_def by (simp add: strict_sorted_iff)

lemma map_ok_nth_less: "map_ok m \<Longrightarrow> i < j \<Longrightarrow> j < length m \<Longrightarrow> fst (m ! i) < fst (m ! j)"
  unfolding map_ok_def by (auto simp: sorted_wrt_iff_nth_less)

lemma lower_bound_le: "lower_bound m v \<le> length m"
  by (induction m v rule: lower_bound.induct) auto

lemma lower_bound_before: "i < lower_bound m v \<Longrightarrow> fst (m ! i) < v"
proof (induction m v arbitrary: i rule: lower_bound.induct)
  case (1 v) then show ?case by simp
next
  case (2 k b m v) then show ?case by (cases i) (auto split: if_splits)
qed

lemma lower_bound_at: "lower_bound m v < length m \<Longrightarrow> v \<le> fst (m ! lower_bound m v)"
  by (induction m v rule: lower_bound.induct) auto

lemma lower_bound_after:
  assumes "map_ok m" "lower_bound m v \<le> i" "i < length m"
  shows "v \<le> fst (m ! i)"
proof (cases "i = lower_bound m v")
  case True
  with assms lower_bound_at show ?thesis by metis
next
  case False
  with assms have "lower_bound m v < i" by simp
  from map_ok_nth_less[OF assms(1) this assms(3)] lower_bound_at[of m v] assms
  show ?thesis by simp
qed

lemma map_insert_fresh:
  "map_ok m \<Longrightarrow> fst kv \<notin> fst ` set m \<Longrightarrow>
     \<exists>it. it \<le> length m \<and> map_insert kv m = (take it m @ kv # drop it m, it, True) \<and>
          map_ok (take it m @ kv # drop it m)"
proof (induction m)
  case Nil
  then show ?case by (simp add: map_ok_def)
next
  case (Cons e m)
  show ?case
  proof (cases "fst kv < fst e")
    case True
    with Cons.prems have "map_insert kv (e # m) = (take 0 (e # m) @ kv # drop 0 (e # m), 0, True)
       \<and> map_ok (take 0 (e # m) @ kv # drop 0 (e # m))"
      by (auto simp: map_ok_Cons)
    then show ?thesis by blast
  next
    case False
    with Cons.prems have lt: "fst e < fst kv" by auto
    from Cons.prems have "map_ok m" "fst kv \<notin> fst ` set m" by (auto simp: map_ok_Cons)
    from Cons.IH[OF this] obtain it where it: "it \<le> length m"
      "map_insert kv m = (take it m @ kv # drop it m, it, True)"
      "map_ok (take it m @ kv # drop it m)" by blast
    have "map_ok (take (Suc it) (e # m) @ kv # drop (Suc it) (e # m))"
      using it(3) lt Cons.prems(1) by (auto simp: map_ok_Cons dest: in_set_takeD in_set_dropD)
    with it lt False have "Suc it \<le> length (e # m) \<and>
       map_insert kv (e # m) = (take (Suc it) (e # m) @ kv # drop (Suc it) (e # m), Suc it, True)
       \<and> map_ok (take (Suc it) (e # m) @ kv # drop (Suc it) (e # m))"
      by simp
    then show ?thesis by blast
  qed
qed

lemma map_insert_present:
  "map_ok m \<Longrightarrow> fst kv \<in> fst ` set m \<Longrightarrow>
     \<exists>it. it < length m \<and> map_insert kv m = (m, it, False) \<and> fst (m ! it) = fst kv"
proof (induction m)
  case Nil
  then show ?case by simp
next
  case (Cons e m)
  show ?case
  proof (cases "fst kv = fst e")
    case True
    then have "map_insert kv (e # m) = (e # m, 0, False) \<and> fst ((e # m) ! 0) = fst kv" by simp
    then show ?thesis by blast
  next
    case False
    with Cons.prems have mem: "fst kv \<in> fst ` set m" and ok: "map_ok m" by (auto simp: map_ok_Cons)
    with Cons.prems have lt: "fst e < fst kv" by (auto simp: map_ok_Cons)
    from Cons.IH[OF ok mem] obtain it where "it < length m" "map_insert kv m = (m, it, False)"
      "fst (m ! it) = fst kv" by blast
    with lt have "Suc it < length (e # m) \<and> map_insert kv (e # m) = (e # m, Suc it, False) \<and>
      fst ((e # m) ! Suc it) = fst kv" by simp
    then show ?thesis by blast
  qed
qed

lemma map_ok_erase:
  assumes "map_ok m"
  shows "map_ok (map_erase m it)"
proof -
  have "sorted_wrt (<) (map fst (take it m) @ map fst (drop it m))"
    using assms by (simp add: map_ok_def flip: map_append)
  then have a: "sorted_wrt (<) (map fst (take it m))"
    and b: "\<forall>x\<in>set (take it m). \<forall>y\<in>set (drop it m). fst x < fst y"
    unfolding sorted_wrt_append by simp_all
  have c: "sorted_wrt (<) (map fst (drop (Suc it) m))"
    using assms by (simp add: map_ok_def sorted_wrt_drop flip: drop_map)
  have d: "set (drop (Suc it) m) \<subseteq> set (drop it m)"
    by (rule set_drop_subset_set_drop) simp
  from b d have "\<forall>x\<in>set (take it m). \<forall>y\<in>set (drop (Suc it) m). fst x < fst y"
    by blast
  with a c show ?thesis
    by (simp add: map_ok_def map_erase_def sorted_wrt_append)
qed

lemma set_map_erase:
  assumes "map_ok m" "it < length m"
  shows "set (map_erase m it) = set m - {m ! it}"
proof -
  have d: "distinct m" using map_ok_distinct[OF assms(1)] by (simp add: distinct_map)
  have m: "m = take it m @ (m ! it) # drop (Suc it) m"
    using assms(2) by (simp add: id_take_nth_drop)
  from d have "distinct (take it m @ (m ! it) # drop (Suc it) m)" using m by simp
  then have "m ! it \<notin> set (take it m) \<and> m ! it \<notin> set (drop (Suc it) m)" by auto
  moreover have "set m = set (take it m) \<union> {m ! it} \<union> set (drop (Suc it) m)"
    by (subst m) auto
  ultimately show ?thesis by (auto simp: map_erase_def)
qed

lemma map_fst_update: "it < length m \<Longrightarrow> map fst (m[it := (fst (m ! it), v)]) = map fst m"
  by (simp add: map_update list_update_same_conv)

lemma map_ok_update: "it < length m \<Longrightarrow> map_ok (m[it := (fst (m ! it), v)]) = map_ok m"
  by (simp add: map_ok_def map_fst_update)

lemma erase_while_le_filter:
  "map_ok m \<Longrightarrow> erase_while_le m t = filter (\<lambda>e. t < fst e) m"
proof (induction m)
  case Nil then show ?case by simp
next
  case (Cons e m)
  then have ok: "map_ok m" and gt: "\<forall>x\<in>set m. fst e < fst x"
    by (simp_all add: map_ok_Cons)
  show ?case
  proof (cases "fst e \<le> t")
    case True
    with Cons.IH[OF ok] show ?thesis by simp
  next
    case False
    with gt have "\<forall>x\<in>set m. t < fst x" by auto
    then have "filter (\<lambda>e. t < fst e) m = m" by (simp add: filter_id_conv)
    with False show ?thesis by simp
  qed
qed

lemma all_received_loop_eq:
  "all_received_loop nf i a = (a \<and> list_all (\<lambda>f. f \<noteq> None) (drop i nf))"
proof (induction nf i a rule: all_received_loop.induct)
  case (1 nf i a)
  show ?case
  proof (cases "i < getNumFrames nf")
    case True
    then have lt: "i < length nf" by (simp add: getNumFrames_def)
    have "all_received_loop nf i a = all_received_loop nf (Suc i) (a \<and> isFrameSet nf i)"
      using True by (subst all_received_loop.simps) simp
    also have "\<dots> = ((a \<and> isFrameSet nf i) \<and> list_all (\<lambda>f. f \<noteq> None) (drop (Suc i) nf))"
      using 1 True by simp
    also have "\<dots> = (a \<and> list_all (\<lambda>f. f \<noteq> None) (nf ! i # drop (Suc i) nf))"
      using lt by (simp add: isFrameSet_def)
    also have "nf ! i # drop (Suc i) nf = drop i nf"
      using lt by (rule Cons_nth_drop_Suc)
    finally show ?thesis .
  next
    case False
    then show ?thesis by (subst all_received_loop.simps) (simp add: getNumFrames_def)
  qed
qed

lemma all_received_all_set: "all_received_loop nf 0 True = all_set nf"
  by (simp add: all_received_loop_eq all_set_def)

subsection \<open>The search for the nearest bundle\<close>

lemma abs_diff_representable:
  "INT64_MIN < a - b \<Longrightarrow> a - b \<le> INT64_MAX \<Longrightarrow> abs_diff a b = Inr \<bar>a - b\<bar>"
  by (simp add: abs_diff_def is_int64_def Let_def)

lemma diffs_representable_nth:
  "diffs_representable m ts \<Longrightarrow> j < length m \<Longrightarrow> abs_diff (fst (m ! j)) ts = Inr \<bar>fst (m ! j) - ts\<bar>"
  by (simp add: diffs_representable_def list_all_length abs_diff_representable)

lemma abs_diff_Inr: "abs_diff a b = Inr d \<Longrightarrow> d = \<bar>a - b\<bar>"
  by (simp add: abs_diff_def Let_def split: if_splits)

lemma find_nframe_unfold:
  assumes "m \<noteq> []"
    and "i0 = (if lower_bound m ts \<noteq> 0 then lower_bound m ts - 1 else lower_bound m ts)"
  shows "find_nframe tol m ts =
           (case abs_diff (fst (m ! i0)) ts of
              Inl e \<Rightarrow> Inl e
            | Inr d1 \<Rightarrow>
                if Suc i0 \<noteq> length m then
                  (case abs_diff (fst (m ! Suc i0)) ts of
                     Inl e \<Rightarrow> Inl e
                   | Inr d2 \<Rightarrow> if d2 < d1 then Inr (Suc i0, tol < d2) else Inr (i0, tol < d1))
                else Inr (i0, tol < d1))"
proof (cases "lower_bound m ts = 0")
  case True
  with assms(2) have "i0 = 0" by simp
  with assms(1) True show ?thesis by (simp add: find_nframe_def Let_def split: sum.split)
next
  case False
  with assms(2) have "lower_bound m ts = Suc i0" by simp
  with assms(1) show ?thesis by (simp add: find_nframe_def Let_def split: sum.split)
qed

lemma find_nframe_defined:
  assumes ne: "m \<noteq> []" and rep: "diffs_representable m ts"
  shows "\<exists>r. find_nframe tol m ts = Inr r"
proof -
  define i0 where "i0 = (if lower_bound m ts \<noteq> 0 then lower_bound m ts - 1 else lower_bound m ts)"
  have "lower_bound m ts \<le> length m" by (rule lower_bound_le)
  with ne have i0_lt: "i0 < length m" by (auto simp: i0_def)
  note D = diffs_representable_nth[OF rep]
  show ?thesis
  proof (cases "Suc i0 = length m")
    case True
    with D[OF i0_lt] show ?thesis by (simp add: find_nframe_unfold[OF ne i0_def])
  next
    case False
    with i0_lt have "Suc i0 < length m" by simp
    from D[OF this] D[OF i0_lt] False show ?thesis by (simp add: find_nframe_unfold[OF ne i0_def])
  qed
qed

lemma find_nframe_nearest:
  assumes ok: "map_ok m" and ne: "m \<noteq> []" and res: "find_nframe tol m ts = Inr r"
  shows "\<exists>it<length m.
           r = (it, tol < \<bar>fst (m ! it) - ts\<bar>) \<and>
           (\<forall>j<length m. \<bar>fst (m ! it) - ts\<bar> \<le> \<bar>fst (m ! j) - ts\<bar>) \<and>
           (\<forall>j<it. \<bar>fst (m ! it) - ts\<bar> < \<bar>fst (m ! j) - ts\<bar>)"
proof -
  define lb where "lb = lower_bound m ts"
  define i0 where "i0 = (if lb \<noteq> 0 then lb - 1 else lb)"
  define key where "key j = fst (m ! j)" for j
  have len: "0 < length m" using ne by simp
  have lb_le: "lb \<le> length m" unfolding lb_def by (rule lower_bound_le)
  have i0_lt: "i0 < length m" using len lb_le by (auto simp: i0_def)
  have K: "key j < key j'" if "j < j'" "j' < length m" for j j'
    unfolding key_def using ok that by (rule map_ok_nth_less)
  have L: "key j < ts" if "j < lb" for j
    unfolding key_def using that lower_bound_before lb_def by simp
  have U: "ts \<le> key j" if "lb \<le> j" "j < length m" for j
    unfolding key_def using lower_bound_after[OF ok] that lb_def by simp
  have i0_eq: "i0 = (if lower_bound m ts \<noteq> 0 then lower_bound m ts - 1 else lower_bound m ts)"
    by (simp add: i0_def lb_def)
  note E = find_nframe_unfold[OF ne i0_eq, of tol]
  have eq: "Inr r =
           (if Suc i0 \<noteq> length m then
              (if \<bar>key (Suc i0) - ts\<bar> < \<bar>key i0 - ts\<bar>
               then Inr (Suc i0, tol < \<bar>key (Suc i0) - ts\<bar>)
               else Inr (i0, tol < \<bar>key i0 - ts\<bar>))
            else (Inr (i0, tol < \<bar>key i0 - ts\<bar>) :: error + nat \<times> bool))"
  proof -
    from E res obtain d1 where d1: "abs_diff (fst (m ! i0)) ts = Inr d1"
      by (cases "abs_diff (fst (m ! i0)) ts") auto
    then have d1v: "d1 = \<bar>key i0 - ts\<bar>" unfolding key_def by (rule abs_diff_Inr)
    show ?thesis
    proof (cases "Suc i0 = length m")
      case True
      with E res d1 d1v show ?thesis by simp
    next
      case False
      with E res d1 obtain d2 where d2: "abs_diff (fst (m ! Suc i0)) ts = Inr d2"
        by (cases "abs_diff (fst (m ! Suc i0)) ts") auto
      then have "d2 = \<bar>key (Suc i0) - ts\<bar>" unfolding key_def by (rule abs_diff_Inr)
      with E res d1 d1v d2 False show ?thesis by simp
    qed
  qed
  show ?thesis
  proof (cases "lb = 0")
    case True
    then have z: "i0 = 0" by (simp add: i0_def)
    have min0: "\<bar>key 0 - ts\<bar> \<le> \<bar>key j - ts\<bar>" if "j < length m" for j
      using U[of 0] U[of j] K[of 0 j] that True len by (cases "j = 0") (simp; linarith)+
    have "\<not> \<bar>key (Suc 0) - ts\<bar> < \<bar>key 0 - ts\<bar>" if "Suc 0 < length m"
      using U[of 0] U[of "Suc 0"] K[of 0 "Suc 0"] that True by (simp; linarith)
    then have r: "r = (0, tol < \<bar>key 0 - ts\<bar>)"
      using eq z len by (cases "Suc 0 = length m") auto
    from r min0 len show ?thesis unfolding key_def by auto
  next
    case False
    then have i0: "i0 < lb" "Suc i0 = lb" by (simp_all add: i0_def)
    have lo: "\<bar>key i0 - ts\<bar> \<le> \<bar>key j - ts\<bar>" if "j \<le> i0" for j
      using L[of j] L[of i0] K[of j i0] that i0 i0_lt by (cases "j = i0") (simp; linarith)+
    have lo_strict: "\<bar>key i0 - ts\<bar> < \<bar>key j - ts\<bar>" if "j < i0" for j
      using L[of j] L[of i0] K[of j i0] that i0 i0_lt by (simp; linarith)
    show ?thesis
    proof (cases "lb = length m")
      case True
      have r: "r = (i0, tol < \<bar>key i0 - ts\<bar>)"
        using eq i0 True by simp
      have "\<bar>key i0 - ts\<bar> \<le> \<bar>key j - ts\<bar>" if "j < length m" for j
        using lo[of j] that True i0 by simp
      with r lo_strict i0_lt show ?thesis unfolding key_def by auto
    next
      case nend: False
      then have lbl: "lb < length m" using lb_le by simp
      have hi: "\<bar>key lb - ts\<bar> \<le> \<bar>key j - ts\<bar>" if "lb \<le> j" "j < length m" for j
        using U[of lb] U[of j] K[of lb j] that lbl by (cases "j = lb") (simp; linarith)+
      show ?thesis
      proof (cases "\<bar>key lb - ts\<bar> < \<bar>key i0 - ts\<bar>")
        case True
        have r: "r = (lb, tol < \<bar>key lb - ts\<bar>)"
          using eq i0 True nend by simp
        have a: "\<bar>key lb - ts\<bar> \<le> \<bar>key j - ts\<bar>" if "j < length m" for j
          using lo[of j] hi[of j] True that i0 by (cases "j \<le> i0") (simp; linarith)+
        have b: "\<bar>key lb - ts\<bar> < \<bar>key j - ts\<bar>" if "j < lb" for j
          using lo[of j] True that i0 by (simp; linarith)
        from r a b lbl show ?thesis unfolding key_def by auto
      next
        case nlt: False
        have r: "r = (i0, tol < \<bar>key i0 - ts\<bar>)"
          using eq i0 nlt nend by simp
        have a: "\<bar>key i0 - ts\<bar> \<le> \<bar>key j - ts\<bar>" if "j < length m" for j
          using lo[of j] hi[of j] nlt that i0 by (cases "j \<le> i0") (simp; linarith)+
        from r a lo_strict i0_lt show ?thesis unfolding key_def by auto
      qed
    qed
  qed
qed

subsection \<open>Construction\<close>

lemma check_pipelines_eq:
  assumes "numCameras ic = length ps" "numCameras oc = length ps"
  shows "check_pipelines ps ic oc i =
           (if list_all (pipeline_matches ps ic oc) [i..<length ps] then Inr () else Inl CheckFailure)"
  using assms
proof (induction ps ic oc i rule: check_pipelines.induct)
  case (1 ps ic oc i)
  show ?case
  proof (cases "i < length ps")
    case False
    then show ?thesis by (subst check_pipelines.simps) simp
  next
    case True
    then have up: "[i..<length ps] = i # [Suc i..<length ps]" by (simp add: upt_conv_Cons)
    show ?thesis
    proof (cases "ps ! i")
      case None
      with True show ?thesis
        by (subst check_pipelines.simps) (simp add: up pipeline_matches_def)
    next
      case (Some p)
      show ?thesis
      proof (cases "cameras ic ! i = getInputCameraShared p \<and> cameras oc ! i = getOutputCameraShared p")
        case False
        with True Some 1(2,3) show ?thesis
          by (subst check_pipelines.simps) (auto simp add: up pipeline_matches_def getCameraShared_def)
      next
        case m: True
        have pm: "pipeline_matches ps ic oc i"
          using Some m by (simp add: pipeline_matches_def)
        have "check_pipelines ps ic oc i = check_pipelines ps ic oc (Suc i)"
          using True Some 1(2,3) m
          by (subst check_pipelines.simps) (simp add: getCameraShared_def)
        also have "\<dots> = (if list_all (pipeline_matches ps ic oc) [Suc i..<length ps] then Inr () else Inl CheckFailure)"
          using "1.IH"[OF True Some _ _ _ _ 1(2,3)] True Some m 1(2,3)
          by (simp add: getCameraShared_def)
        finally show ?thesis using pm by (simp add: up)
      qed
    qed
  qed
qed

lemma VisualNPipeline_ctor_cases:
  "(\<not> valid_configuration num_threads ps ic oc \<longrightarrow>
      VisualNPipeline_ctor num_threads ps (Some ic) (Some oc) tol = Inl CheckFailure) \<and>
   (valid_configuration num_threads ps ic oc \<and> 0 \<le> tol \<longrightarrow>
      VisualNPipeline_ctor num_threads ps (Some ic) (Some oc) tol =
        Inr \<lparr> pipelines = ps, input_camera_system = Some ic, output_camera_system = Some oc,
              timestamp_tolerance_ns = tol, processing = [], completed = [], thread_pool = [],
              num_threads_of = num_threads, cv_new_nframe = 0, log_warnings = 0 \<rparr>)"
proof (cases "numCameras ic = length ps \<and> numCameras oc = length ps")
  case False
  then show ?thesis
    by (auto simp: VisualNPipeline_ctor_def valid_configuration_def)
next
  case True
  then have "check_pipelines ps ic oc 0 =
      (if list_all (pipeline_matches ps ic oc) [0..<length ps] then Inr () else Inl CheckFailure)"
    by (simp add: check_pipelines_eq)
  with True show ?thesis
    by (auto simp: VisualNPipeline_ctor_def valid_configuration_def)
qed

lemma createTestVisualNPipeline_eq:
  assumes "0 < num_cameras" "0 < num_threads" "0 \<le> tol"
  shows "createTestVisualNPipeline num_cameras num_threads tol =
           Inr (test_pipeline num_cameras num_threads tol)"
proof -
  let ?nc = "createTestNCamera num_cameras"
  let ?ps = "map (\<lambda>c. Some (NullVisualPipeline c)) (cameras ?nc)"
  have n: "numCameras ?nc = num_cameras" by (simp add: numCameras_def createTestNCamera_def)
  have nn: "list_all (\<lambda>c. c \<noteq> None) (cameras ?nc)"
    by (simp add: createTestNCamera_def list_all_iff)
  have "list_all (pipeline_matches ?ps ?nc ?nc) [0..<length ?ps]"
    by (simp add: list_all_iff pipeline_matches_def createTestNCamera_def NullVisualPipeline_def)
  with assms n have "valid_configuration num_threads ?ps ?nc ?nc"
    by (simp add: valid_configuration_def createTestNCamera_def)
  with assms(3) VisualNPipeline_ctor_cases[of num_threads ?ps ?nc ?nc tol]
  have "VisualNPipeline_ctor num_threads ?ps (Some ?nc) (Some ?nc) tol =
          Inr (test_pipeline num_cameras num_threads tol)"
    by (simp add: test_pipeline_def createTestNCamera_def comp_def)
  with n nn show ?thesis by (simp add: createTestVisualNPipeline_def Let_def)
qed

text \<open>C7. Construction fails on a failed check (the error the specification calls
  InvalidConfiguration), and returns no pipeline, whenever the camera counts of the input
  set, the output set and the processor list disagree, the camera count is zero, the
  worker count is zero, a processor is null, or a processor's input or output camera is
  not the object stored at its position of the input or output camera set. A
  construction that meets all these conditions with a tolerance \<open>\<ge> 0\<close> succeeds
  and yields a pipeline with empty processing and completed maps. A negative tolerance
  or a null camera system fails as well.\<close>

theorem ctor_validates:
  "(\<not> valid_configuration num_threads ps ic oc \<longrightarrow>
      VisualNPipeline_ctor num_threads ps (Some ic) (Some oc) tol = Inl CheckFailure) \<and>
   (valid_configuration num_threads ps ic oc \<and> 0 \<le> tol \<longrightarrow>
      VisualNPipeline_ctor num_threads ps (Some ic) (Some oc) tol =
        Inr \<lparr> pipelines = ps, input_camera_system = Some ic, output_camera_system = Some oc,
              timestamp_tolerance_ns = tol, processing = [], completed = [], thread_pool = [],
              num_threads_of = num_threads, cv_new_nframe = 0, log_warnings = 0 \<rparr>) \<and>
   (tol < 0 \<longrightarrow>
      VisualNPipeline_ctor num_threads ps (Some ic) (Some oc) tol = Inl CheckFailure) \<and>
   VisualNPipeline_ctor num_threads ps None output_cs tol = Inl CheckFailure \<and>
   VisualNPipeline_ctor num_threads ps input_cs None tol = Inl CheckFailure"
proof -
  have "VisualNPipeline_ctor num_threads ps (Some ic) (Some oc) tol = Inl CheckFailure"
    if "tol < 0"
    using that VisualNPipeline_ctor_cases[of num_threads ps ic oc tol]
    by (cases "valid_configuration num_threads ps ic oc")
       (simp_all add: VisualNPipeline_ctor_def valid_configuration_def)
  moreover have "VisualNPipeline_ctor num_threads ps None output_cs tol = Inl CheckFailure"
    by (simp add: VisualNPipeline_ctor_def)
  moreover have "VisualNPipeline_ctor num_threads ps input_cs None tol = Inl CheckFailure"
    by (simp add: VisualNPipeline_ctor_def split: option.splits)
  ultimately show ?thesis
    using VisualNPipeline_ctor_cases[of num_threads ps ic oc tol] by blast
qed

theorem ctor_validates_witness:
  "valid_configuration 1 [Some (NullVisualPipeline (Some 0))] \<lparr>cameras = [Some 0]\<rparr> \<lparr>cameras = [Some 0]\<rparr> \<and>
   VisualNPipeline_ctor 1 [Some (NullVisualPipeline (Some 0))]
       (Some \<lparr>cameras = [Some 0]\<rparr>) (Some \<lparr>cameras = [Some 0]\<rparr>) 0 =
     Inr \<lparr> pipelines = [Some (NullVisualPipeline (Some 0))],
           input_camera_system = Some \<lparr>cameras = [Some 0]\<rparr>,
           output_camera_system = Some \<lparr>cameras = [Some 0]\<rparr>,
           timestamp_tolerance_ns = 0, processing = [], completed = [], thread_pool = [],
           num_threads_of = 1, cv_new_nframe = 0, log_warnings = 0 \<rparr> \<and>
   \<not> valid_configuration 1 [Some (NullVisualPipeline (Some 0))] \<lparr>cameras = [Some 0]\<rparr> \<lparr>cameras = [Some 1]\<rparr> \<and>
   VisualNPipeline_ctor 1 [Some (NullVisualPipeline (Some 0))]
       (Some \<lparr>cameras = [Some 0]\<rparr>) (Some \<lparr>cameras = [Some 1]\<rparr>) 0 = Inl CheckFailure"
proof -
  have v: "valid_configuration 1 [Some (NullVisualPipeline (Some 0))] \<lparr>cameras = [Some 0]\<rparr> \<lparr>cameras = [Some 0]\<rparr>"
    by (simp add: valid_configuration_def pipeline_matches_def numCameras_def NullVisualPipeline_def)
  have n: "\<not> valid_configuration 1 [Some (NullVisualPipeline (Some 0))] \<lparr>cameras = [Some 0]\<rparr> \<lparr>cameras = [Some 1]\<rparr>"
    by (simp add: valid_configuration_def pipeline_matches_def numCameras_def NullVisualPipeline_def)
  from v n
    ctor_validates [of 1 "[Some (NullVisualPipeline (Some 0))]" "\<lparr>cameras = [Some 0]\<rparr>" "\<lparr>cameras = [Some 0]\<rparr>" 0]
    ctor_validates [of 1 "[Some (NullVisualPipeline (Some 0))]" "\<lparr>cameras = [Some 0]\<rparr>" "\<lparr>cameras = [Some 1]\<rparr>" 0]
  show ?thesis by simp
qed

subsection \<open>Evaluation on concrete pipelines\<close>

lemmas run_defs =
  work_def work_locked_def locate_nframe_def find_nframe_def install_frame_def
  move_if_complete_def new_VisualNFrame_def getFrameShared_def setFrame_def
  getNumFrames_def isFrameSet_def abs_diff_def is_int64_def INT64_MIN_def INT64_MAX_def
  map_erase_def numCameras_def all_received_loop.simps Let_def
  test_pipeline_def createTestNCamera_def NullVisualPipeline_def

subsection \<open>\<open>getNext\<close>\<close>

lemma getNext_empty: "completed s = [] \<Longrightarrow> getNext s = (None, s)"
  by (simp add: getNext_def)

lemma getNext_nonempty:
  "completed s \<noteq> [] \<Longrightarrow>
     getNext s = (Some (snd (hd (completed s))), s\<lparr>completed := tl (completed s)\<rparr>)"
  by (cases "completed s") (simp_all add: getNext_def map_erase_def)

lemma map_ok_hd_least: "map_ok m \<Longrightarrow> e \<in> set (tl m) \<Longrightarrow> fst (hd m) < fst e"
  by (cases m) (auto simp: map_ok_Cons)

lemma getNext_seq_results:
  "fst (getNext_seq n s) =
     map (\<lambda>e. Some (snd e)) (take n (completed s)) @ replicate (n - length (completed s)) None"
proof (induction n arbitrary: s)
  case 0
  show ?case by simp
next
  case (Suc n)
  show ?case
  proof (cases "completed s")
    case Nil
    then have "getNext s = (None, s)" by (rule getNext_empty)
    with Suc[of s] Nil show ?thesis by (simp add: split_beta replicate_app_Cons_same)
  next
    case (Cons e m)
    then have "getNext s = (Some (snd e), s\<lparr>completed := m\<rparr>)"
      by (simp add: getNext_nonempty)
    with Suc[of "s\<lparr>completed := m\<rparr>"] Cons show ?thesis by (simp add: split_beta)
  qed
qed

lemma map_ok_take_sorted:
  assumes "map_ok m"
  shows "sorted (map fst (take n m))"
proof -
  from assms have "sorted (map fst m)" by (simp add: map_ok_def strict_sorted_iff)
  then show ?thesis by (simp add: take_map[symmetric] sorted_wrt_take del: take_map)
qed

text \<open>C5. On an empty completion queue \<open>getNext\<close> returns nothing and leaves the state as
  it is. On a non-empty one it returns the bundle of the first entry, the one with the
  smallest reference timestamp, and removes that entry only. Hence \<open>n\<close> calls between
  which no bundle completes return the bundles of the first \<open>n\<close> entries in ascending
  key order (and nothing once the queue is exhausted): the reference timestamps of the
  returned bundles never decrease over such calls. Over calls between which a bundle
  completes the order can decrease, as the run after the witness shows.\<close>

theorem getNext_oldest_first:
  "(completed s = [] \<longrightarrow> getNext s = (None, s)) \<and>
   (completed s \<noteq> [] \<and> map_ok (completed s) \<longrightarrow>
      getNext s = (Some (snd (hd (completed s))), s\<lparr>completed := tl (completed s)\<rparr>) \<and>
      (\<forall>e\<in>set (tl (completed s)). fst (hd (completed s)) < fst e)) \<and>
   (map_ok (completed s) \<longrightarrow>
      fst (getNext_seq n s) =
        map (\<lambda>e. Some (snd e)) (take n (completed s)) @
        replicate (n - length (completed s)) None \<and>
      sorted (map fst (take n (completed s))))"
  using getNext_empty[of s] getNext_nonempty[of s] map_ok_hd_least[of "completed s"]
    getNext_seq_results[of n s] map_ok_take_sorted[of "completed s" n]
  by blast

theorem getNext_oldest_first_witness:
  "map_ok [(100, [Some \<lparr>getTimestampNanoseconds = 100, payload = 7\<rparr>]),
           (200, [Some \<lparr>getTimestampNanoseconds = 200, payload = 8\<rparr>])] \<and>
   getNext (test_pipeline 1 1 0) = (None, test_pipeline 1 1 0) \<and>
   getNext ((test_pipeline 1 1 0)
       \<lparr>completed := [(100, [Some \<lparr>getTimestampNanoseconds = 100, payload = 7\<rparr>]),
                      (200, [Some \<lparr>getTimestampNanoseconds = 200, payload = 8\<rparr>])]\<rparr>) =
     (Some [Some \<lparr>getTimestampNanoseconds = 100, payload = 7\<rparr>],
      (test_pipeline 1 1 0)
        \<lparr>completed := [(200, [Some \<lparr>getTimestampNanoseconds = 200, payload = 8\<rparr>])]\<rparr>) \<and>
   fst (getNext_seq 3 ((test_pipeline 1 1 0)
       \<lparr>completed := [(100, [Some \<lparr>getTimestampNanoseconds = 100, payload = 7\<rparr>]),
                      (200, [Some \<lparr>getTimestampNanoseconds = 200, payload = 8\<rparr>])]\<rparr>)) =
     [Some [Some \<lparr>getTimestampNanoseconds = 100, payload = 7\<rparr>],
      Some [Some \<lparr>getTimestampNanoseconds = 200, payload = 8\<rparr>], None]"
proof -
  let ?c = "[(100, [Some \<lparr>getTimestampNanoseconds = 100, payload = 7\<rparr>]),
             (200 :: int, [Some \<lparr>getTimestampNanoseconds = 200, payload = 8 :: nat\<rparr>])]"
  have ok: "map_ok ?c" by (simp add: map_ok_def)
  have e: "completed (test_pipeline 1 1 0) = []" by (simp add: test_pipeline_def)
  from ok e
    getNext_oldest_first [of "test_pipeline 1 1 0" 0]
    getNext_oldest_first [of "(test_pipeline 1 1 0)\<lparr>completed := ?c\<rparr>" 3]
  show ?thesis by simp
qed

text \<open>The order is that of the queue at the time of each call. A bundle that completes
  between two calls may have an earlier reference timestamp than the one already
  returned: on the pipeline \<open>createTestVisualNPipeline(1, 1, 0)\<close>, a frame at 200
  completes and \<open>getNext\<close> returns its bundle (reference timestamp 200), then a frame at
  100 completes and the next \<open>getNext\<close> returns its bundle (reference timestamp 100).\<close>

theorem getNext_interleaved_counterexample:
  "createTestVisualNPipeline 1 1 0 = Inr (test_pipeline 1 1 0) \<and>
   work (test_pipeline 1 1 0) 0 7 200 =
     Inr ((test_pipeline 1 1 0)
            \<lparr>completed := [(200, [Some \<lparr>getTimestampNanoseconds = 200, payload = 7\<rparr>])],
             cv_new_nframe := 1\<rparr>) \<and>
   getNext ((test_pipeline 1 1 0)
            \<lparr>completed := [(200, [Some \<lparr>getTimestampNanoseconds = 200, payload = 7\<rparr>])],
             cv_new_nframe := 1\<rparr>) =
     (Some [Some \<lparr>getTimestampNanoseconds = 200, payload = 7\<rparr>],
      (test_pipeline 1 1 0)\<lparr>completed := [], cv_new_nframe := 1\<rparr>) \<and>
   work ((test_pipeline 1 1 0)\<lparr>completed := [], cv_new_nframe := 1\<rparr>) 0 8 100 =
     Inr ((test_pipeline 1 1 0)
            \<lparr>completed := [(100, [Some \<lparr>getTimestampNanoseconds = 100, payload = 8\<rparr>])],
             cv_new_nframe := 2\<rparr>) \<and>
   getNext ((test_pipeline 1 1 0)
            \<lparr>completed := [(100, [Some \<lparr>getTimestampNanoseconds = 100, payload = 8\<rparr>])],
             cv_new_nframe := 2\<rparr>) =
     (Some [Some \<lparr>getTimestampNanoseconds = 100, payload = 8\<rparr>],
      (test_pipeline 1 1 0)\<lparr>completed := [], cv_new_nframe := 2\<rparr>) \<and>
   \<not> (200 :: int) \<le> 100"
  by (simp add: createTestVisualNPipeline_eq) (simp add: run_defs getNext_def)

subsection \<open>\<open>getLatestAndClear\<close>\<close>

lemma last_greatest: "map_ok m \<Longrightarrow> e \<in> set m \<Longrightarrow> fst e \<le> fst (last m)"
proof (induction m)
  case Nil then show ?case by simp
next
  case (Cons a m)
  then show ?case by (cases "m = []") (auto simp: map_ok_Cons intro: less_imp_le order.trans)
qed

lemma getLatestAndClear_eq:
  assumes "completed s \<noteq> []" "map_ok (processing s)"
  shows "getLatestAndClear s =
           (Some (snd (last (completed s))),
            s\<lparr>completed := [],
              processing := filter (\<lambda>e. fst (last (completed s)) < fst e) (processing s)\<rparr>)"
  using assms by (simp add: getLatestAndClear_def Let_def last_conv_nth erase_while_le_filter)

lemma run_three_completions:
  "run_tasks (test_pipeline 1 1 0) [(0, a, 100), (0, b, 200), (0, c, 300)] =
     Inr ((test_pipeline 1 1 0)
            \<lparr>completed := [(100, [Some \<lparr>getTimestampNanoseconds = 100, payload = a\<rparr>]),
                           (200, [Some \<lparr>getTimestampNanoseconds = 200, payload = b\<rparr>]),
                           (300, [Some \<lparr>getTimestampNanoseconds = 300, payload = c\<rparr>])],
             cv_new_nframe := 3\<rparr>)"
  by (simp add: run_defs)

text \<open>C4. On a non-empty completion queue \<open>getLatestAndClear\<close> returns the bundle of the
  last entry, whose reference timestamp is the largest; it empties the completion queue;
  and of the processing map it keeps exactly the entries whose reference timestamp is
  strictly greater than the returned one, unchanged and in order. In particular, with one
  camera and tolerance 0, after frames at 100, 200 and 300 have completed, it returns
  the bundle at 300 and leaves both maps empty.\<close>

theorem getLatestAndClear_newest:
  "(completed s \<noteq> [] \<and> map_ok (completed s) \<and> map_ok (processing s) \<longrightarrow>
      getLatestAndClear s =
        (Some (snd (last (completed s))),
         s\<lparr>completed := [],
           processing := filter (\<lambda>e. fst (last (completed s)) < fst e) (processing s)\<rparr>) \<and>
      (\<forall>e\<in>set (completed s). fst e \<le> fst (last (completed s)))) \<and>
   createTestVisualNPipeline 1 1 0 = Inr (test_pipeline 1 1 0) \<and>
   (\<exists>s3. run_tasks (test_pipeline 1 1 0) [(0, a, 100), (0, b, 200), (0, c, 300)] = Inr s3 \<and>
      map fst (completed s3) = [100, 200, 300] \<and>
      fst (getLatestAndClear s3) = Some [Some \<lparr>getTimestampNanoseconds = 300, payload = c\<rparr>] \<and>
      completed (snd (getLatestAndClear s3)) = [] \<and>
      processing (snd (getLatestAndClear s3)) = [])"
proof -
  have "getLatestAndClear s =
        (Some (snd (last (completed s))),
         s\<lparr>completed := [],
           processing := filter (\<lambda>e. fst (last (completed s)) < fst e) (processing s)\<rparr>) \<and>
      (\<forall>e\<in>set (completed s). fst e \<le> fst (last (completed s)))"
    if "completed s \<noteq> []" "map_ok (completed s)" "map_ok (processing s)"
    using that getLatestAndClear_eq[of s] last_greatest[of "completed s"] by blast
  moreover have "createTestVisualNPipeline 1 1 0 = Inr (test_pipeline 1 1 0)"
    by (simp add: createTestVisualNPipeline_eq)
  moreover have "\<exists>s3. run_tasks (test_pipeline 1 1 0) [(0, a, 100), (0, b, 200), (0, c, 300)] = Inr s3 \<and>
      map fst (completed s3) = [100, 200, 300] \<and>
      fst (getLatestAndClear s3) = Some [Some \<lparr>getTimestampNanoseconds = 300, payload = c\<rparr>] \<and>
      completed (snd (getLatestAndClear s3)) = [] \<and>
      processing (snd (getLatestAndClear s3)) = []"
    unfolding run_three_completions
    by (simp add: getLatestAndClear_def test_pipeline_def)
  ultimately show ?thesis by blast
qed

theorem getLatestAndClear_newest_witness:
  "map_ok [(100 :: int, [Some \<lparr>getTimestampNanoseconds = 100, payload = 7 :: nat\<rparr>]),
           (200, [Some \<lparr>getTimestampNanoseconds = 205, payload = 8\<rparr>])] \<and>
   map_ok [(150 :: int, [None :: VisualFrame option]), (200, [None]), (250, [None])] \<and>
   getLatestAndClear ((test_pipeline 1 1 0)
       \<lparr>completed := [(100, [Some \<lparr>getTimestampNanoseconds = 100, payload = 7\<rparr>]),
                      (200, [Some \<lparr>getTimestampNanoseconds = 205, payload = 8\<rparr>])],
        processing := [(150, [None]), (200, [None]), (250, [None])]\<rparr>) =
     (Some [Some \<lparr>getTimestampNanoseconds = 205, payload = 8\<rparr>],
      (test_pipeline 1 1 0)\<lparr>completed := [], processing := [(250, [None])]\<rparr>)"
proof -
  let ?c = "[(100 :: int, [Some \<lparr>getTimestampNanoseconds = 100, payload = 7 :: nat\<rparr>]),
             (200, [Some \<lparr>getTimestampNanoseconds = 205, payload = 8\<rparr>])]"
  let ?p = "[(150 :: int, [None :: VisualFrame option]), (200, [None]), (250, [None])]"
  have c: "map_ok ?c" by (simp add: map_ok_def)
  have p: "map_ok ?p" by (simp add: map_ok_def)
  from c p
    getLatestAndClear_newest [of "(test_pipeline 1 1 0)\<lparr>completed := ?c, processing := ?p\<rparr>"]
  show ?thesis by simp
qed

subsection \<open>Finding or creating the bundle of a frame\<close>

lemma pipeline_invD:
  assumes "pipeline_inv s"
  obtains oc where "output_camera_system s = Some oc" "0 < numCameras oc"
    "numCameras oc = length (pipelines s)" "list_all (\<lambda>p. p \<noteq> None) (pipelines s)"
    "0 \<le> timestamp_tolerance_ns s" "is_int64 (timestamp_tolerance_ns s)"
    "map_ok (processing s)" "map_ok (completed s)"
    "list_all (\<lambda>e. length (snd e) = numCameras oc \<and> \<not> all_set (snd e)) (processing s)"
    "list_all (\<lambda>e. length (snd e) = numCameras oc \<and> all_set (snd e)) (completed s)"
  using assms by (auto simp: pipeline_inv_def split: option.splits)

lemma locate_nframe_empty:
  assumes "output_camera_system s = Some oc" "processing s = []"
  shows "locate_nframe s ts = Inr ([(ts, replicate (numCameras oc) None)], 0)"
  using assms by (simp add: locate_nframe_def find_nframe_def new_VisualNFrame_def)

lemma nearest_exceeds_fresh:
  assumes "it < length m" "\<forall>j<length m. \<bar>fst (m ! it) - ts\<bar> \<le> \<bar>fst (m ! j) - ts\<bar>"
    and "tol < \<bar>fst (m ! it) - ts\<bar>" "(0::int) \<le> tol"
  shows "ts \<notin> fst ` set m"
proof
  assume "ts \<in> fst ` set m"
  then obtain j where "j < length m" "fst (m ! j) = ts"
    by (auto simp: in_set_conv_nth)
  with assms(2) have "\<bar>fst (m ! it) - ts\<bar> \<le> 0" by fastforce
  with assms(3,4) show False by simp
qed

lemma locate_nframe_cases:
  assumes inv: "pipeline_inv s" and loc: "locate_nframe s ts = Inr (proc, it)"
  obtains
    (reuse) "processing s \<noteq> []" "proc = processing s" "it < length proc"
      "\<bar>fst (proc ! it) - ts\<bar> \<le> timestamp_tolerance_ns s"
      "\<forall>j<length proc. \<bar>fst (proc ! it) - ts\<bar> \<le> \<bar>fst (proc ! j) - ts\<bar>"
      "\<forall>j<it. \<bar>fst (proc ! it) - ts\<bar> < \<bar>fst (proc ! j) - ts\<bar>"
  | (create) "it \<le> length (processing s)"
      "proc = take it (processing s) @ (ts, replicate (length (pipelines s)) None) # drop it (processing s)"
      "map_ok proc" "ts \<notin> fst ` set (processing s)"
      "\<forall>e\<in>set (processing s). timestamp_tolerance_ns s < \<bar>fst e - ts\<bar>"
proof -
  from inv obtain oc where oc: "output_camera_system s = Some oc"
    "numCameras oc = length (pipelines s)" "0 \<le> timestamp_tolerance_ns s"
    "map_ok (processing s)"
    by (rule pipeline_invD)
  let ?m = "processing s" and ?tol = "timestamp_tolerance_ns s"
  let ?new = "(ts, replicate (length (pipelines s)) (None :: VisualFrame option))"
  have fresh: thesis if f: "ts \<notin> fst ` set ?m"
    and far: "\<forall>e\<in>set ?m. ?tol < \<bar>fst e - ts\<bar>"
    and l: "locate_nframe s ts =
       (case map_insert ?new ?m of (m, it, replaced) \<Rightarrow> Inr (m, it))"
  proof -
    from map_insert_fresh[OF oc(4), of ?new] f obtain i where i: "i \<le> length ?m"
      "map_insert ?new ?m = (take i ?m @ ?new # drop i ?m, i, True)"
      "map_ok (take i ?m @ ?new # drop i ?m)" by auto
    with l loc have "proc = take i ?m @ ?new # drop i ?m" "it = i" by simp_all
    with i f far show thesis by (intro create) simp_all
  qed
  show thesis
  proof (cases "?m = []")
    case True
    then have "locate_nframe s ts = (case map_insert ?new ?m of (m, it, replaced) \<Rightarrow> Inr (m, it))"
      using oc by (simp add: locate_nframe_def find_nframe_def new_VisualNFrame_def)
    with True show thesis by (intro fresh) simp_all
  next
    case False
    from loc obtain r where r: "find_nframe ?tol ?m ts = Inr r"
      by (cases "find_nframe ?tol ?m ts") (auto simp: locate_nframe_def)
    from find_nframe_nearest[OF oc(4) False r] obtain n where n: "n < length ?m"
      "r = (n, ?tol < \<bar>fst (?m ! n) - ts\<bar>)"
      "\<forall>j<length ?m. \<bar>fst (?m ! n) - ts\<bar> \<le> \<bar>fst (?m ! j) - ts\<bar>"
      "\<forall>j<n. \<bar>fst (?m ! n) - ts\<bar> < \<bar>fst (?m ! j) - ts\<bar>" by blast
    show thesis
    proof (cases "?tol < \<bar>fst (?m ! n) - ts\<bar>")
      case True
      have f: "ts \<notin> fst ` set ?m"
        using n(1,3) True oc(3) by (rule nearest_exceeds_fresh)
      have far: "\<forall>e\<in>set ?m. ?tol < \<bar>fst e - ts\<bar>"
      proof
        fix e assume "e \<in> set ?m"
        then obtain j where "j < length ?m" "?m ! j = e" by (auto simp: in_set_conv_nth)
        with n(3) True show "?tol < \<bar>fst e - ts\<bar>" by fastforce
      qed
      have "locate_nframe s ts = (case map_insert ?new ?m of (m, it, replaced) \<Rightarrow> Inr (m, it))"
        using r n(2) True oc by (simp add: locate_nframe_def new_VisualNFrame_def)
      with f far show thesis by (intro fresh)
    next
      case nf: False
      with r n(2) have "locate_nframe s ts = Inr (?m, n)" by (simp add: locate_nframe_def)
      with loc have "proc = ?m" "it = n" by simp_all
      with False n nf show thesis by (intro reuse) simp_all
    qed
  qed
qed

lemma locate_nframe_defined:
  assumes inv: "pipeline_inv s" and rep: "diffs_representable (processing s) ts"
  shows "\<exists>proc it. locate_nframe s ts = Inr (proc, it)"
proof (cases "processing s = []")
  case True
  from inv obtain oc where "output_camera_system s = Some oc" by (rule pipeline_invD)
  from locate_nframe_empty[OF this True] show ?thesis by blast
next
  case False
  from inv obtain oc where oc: "output_camera_system s = Some oc" by (rule pipeline_invD)
  from find_nframe_defined[OF False rep] obtain n c
    where "find_nframe (timestamp_tolerance_ns s) (processing s) ts = Inr (n, c)" by force
  with oc show ?thesis
    by (cases c) (auto simp: locate_nframe_def new_VisualNFrame_def split: prod.splits)
qed

lemma nearest_brackets:
  fixes ts :: int
  assumes "e \<in> set m" "\<forall>x\<in>set m. \<bar>fst e - ts\<bar> \<le> \<bar>fst x - ts\<bar>"
  shows "(fst e < ts \<and> (\<forall>x\<in>set m. fst x < ts \<longrightarrow> fst x \<le> fst e)) \<or>
         (ts \<le> fst e \<and> (\<forall>x\<in>set m. ts \<le> fst x \<longrightarrow> fst e \<le> fst x))"
proof (cases "fst e < ts")
  case True
  have "fst x \<le> fst e" if "x \<in> set m" "fst x < ts" for x
    using assms(2) that True by fastforce
  with True show ?thesis by blast
next
  case False
  have "fst e \<le> fst x" if "x \<in> set m" "ts \<le> fst x" for x
    using assms(2) that False by fastforce
  with False show ?thesis by auto
qed

text \<open>C2. A frame with timestamp \<open>ts\<close> arrives at the critical section of \<open>work\<close>, and no
  signed overflow occurs in the timestamp differences. If the processing map is empty, a
  new empty bundle keyed by \<open>ts\<close> is created. Otherwise the entry \<open>n\<close> chosen has the
  smallest absolute difference to \<open>ts\<close> of all entries, and it is one of the two entries
  that bracket \<open>ts\<close> (the greatest key below \<open>ts\<close> or the least key not below it). If that
  difference is at most the tolerance the map is left as it is and the frame goes to
  entry \<open>n\<close>; if it exceeds the tolerance a new empty bundle keyed by \<open>ts\<close> is inserted
  (at its place in key order) and the frame goes to the new entry.\<close>

theorem locate_nearest_or_new:
  assumes inv: "pipeline_inv s" and rep: "diffs_representable (processing s) ts"
  shows "(processing s = [] \<longrightarrow>
            locate_nframe s ts = Inr ([(ts, replicate (length (pipelines s)) None)], 0)) \<and>
         (processing s \<noteq> [] \<longrightarrow>
            (\<exists>n<length (processing s).
               (\<forall>e\<in>set (processing s). \<bar>fst (processing s ! n) - ts\<bar> \<le> \<bar>fst e - ts\<bar>) \<and>
               ((fst (processing s ! n) < ts \<and>
                  (\<forall>e\<in>set (processing s). fst e < ts \<longrightarrow> fst e \<le> fst (processing s ! n))) \<or>
                (ts \<le> fst (processing s ! n) \<and>
                  (\<forall>e\<in>set (processing s). ts \<le> fst e \<longrightarrow> fst (processing s ! n) \<le> fst e))) \<and>
               (if \<bar>fst (processing s ! n) - ts\<bar> \<le> timestamp_tolerance_ns s
                then locate_nframe s ts = Inr (processing s, n)
                else (\<exists>it\<le>length (processing s).
                        locate_nframe s ts =
                          Inr (take it (processing s) @
                                 (ts, replicate (length (pipelines s)) None) #
                                 drop it (processing s), it) \<and>
                        map_ok (take it (processing s) @
                                 (ts, replicate (length (pipelines s)) None) #
                                 drop it (processing s))))))"
proof (intro conjI impI)
  from inv obtain oc where oc: "output_camera_system s = Some oc"
    "numCameras oc = length (pipelines s)" by (rule pipeline_invD)
  assume "processing s = []"
  with oc locate_nframe_empty[of s oc ts]
  show "locate_nframe s ts = Inr ([(ts, replicate (length (pipelines s)) None)], 0)" by simp
next
  let ?m = "processing s" and ?tol = "timestamp_tolerance_ns s"
  assume ne: "?m \<noteq> []"
  from inv have ok: "map_ok ?m" by (rule pipeline_invD)
  from locate_nframe_defined[OF inv rep] obtain proc it
    where loc: "locate_nframe s ts = Inr (proc, it)" by blast
  from find_nframe_defined[OF ne rep] obtain r where r: "find_nframe ?tol ?m ts = Inr r" by blast
  from find_nframe_nearest[OF ok ne r] obtain n where n: "n < length ?m"
    "r = (n, ?tol < \<bar>fst (?m ! n) - ts\<bar>)"
    "\<forall>j<length ?m. \<bar>fst (?m ! n) - ts\<bar> \<le> \<bar>fst (?m ! j) - ts\<bar>" by blast
  have min: "\<forall>e\<in>set ?m. \<bar>fst (?m ! n) - ts\<bar> \<le> \<bar>fst e - ts\<bar>"
  proof
    fix e assume "e \<in> set ?m"
    then obtain j where "j < length ?m" "?m ! j = e" by (auto simp: in_set_conv_nth)
    with n(3) show "\<bar>fst (?m ! n) - ts\<bar> \<le> \<bar>fst e - ts\<bar>" by fastforce
  qed
  have mem: "?m ! n \<in> set ?m" using n(1) by simp
  note br = nearest_brackets[OF mem min]
  have sel: "if \<bar>fst (?m ! n) - ts\<bar> \<le> ?tol
        then locate_nframe s ts = Inr (?m, n)
        else (\<exists>it\<le>length ?m.
                locate_nframe s ts =
                  Inr (take it ?m @ (ts, replicate (length (pipelines s)) None) # drop it ?m, it) \<and>
                map_ok (take it ?m @ (ts, replicate (length (pipelines s)) None) # drop it ?m))"
  proof (cases "\<bar>fst (?m ! n) - ts\<bar> \<le> ?tol")
    case True
    with r n(2) show ?thesis by (simp add: locate_nframe_def)
  next
    case False
    from inv loc show ?thesis
    proof (cases rule: locate_nframe_cases)
      case reuse
      with n(3) have "\<bar>fst (?m ! n) - ts\<bar> \<le> \<bar>fst (?m ! it) - ts\<bar>" by simp
      with reuse False show ?thesis by simp
    next
      case create
      with loc False show ?thesis by auto
    qed
  qed
  from n(1) min br sel
  show "\<exists>n<length ?m.
               (\<forall>e\<in>set ?m. \<bar>fst (?m ! n) - ts\<bar> \<le> \<bar>fst e - ts\<bar>) \<and>
               ((fst (?m ! n) < ts \<and> (\<forall>e\<in>set ?m. fst e < ts \<longrightarrow> fst e \<le> fst (?m ! n))) \<or>
                (ts \<le> fst (?m ! n) \<and> (\<forall>e\<in>set ?m. ts \<le> fst e \<longrightarrow> fst (?m ! n) \<le> fst e))) \<and>
               (if \<bar>fst (?m ! n) - ts\<bar> \<le> ?tol
                then locate_nframe s ts = Inr (?m, n)
                else (\<exists>it\<le>length ?m.
                        locate_nframe s ts =
                          Inr (take it ?m @ (ts, replicate (length (pipelines s)) None) # drop it ?m, it) \<and>
                        map_ok (take it ?m @ (ts, replicate (length (pipelines s)) None) # drop it ?m)))"
    by blast
qed

lemma example_pipeline_inv:
  "pipeline_inv ((test_pipeline 2 1 10)
      \<lparr>processing := [(100, [Some \<lparr>getTimestampNanoseconds = 100, payload = 7\<rparr>, None]),
                      (120, [Some \<lparr>getTimestampNanoseconds = 120, payload = 8\<rparr>, None])]\<rparr>)"
  by (simp add: pipeline_inv_def test_pipeline_def createTestNCamera_def numCameras_def
      map_ok_def all_set_def is_int64_def INT64_MIN_def INT64_MAX_def list_all_iff)

theorem locate_nearest_or_new_witness:
  "pipeline_inv ((test_pipeline 2 1 10)
      \<lparr>processing := [(100, [Some \<lparr>getTimestampNanoseconds = 100, payload = 7\<rparr>, None]),
                      (120, [Some \<lparr>getTimestampNanoseconds = 120, payload = 8\<rparr>, None])]\<rparr>) \<and>
   diffs_representable
      [(100, [Some \<lparr>getTimestampNanoseconds = 100, payload = 7\<rparr>, None]),
       (120, [Some \<lparr>getTimestampNanoseconds = 120, payload = 8\<rparr>, None])] 111 \<and>
   (\<exists>n<2. (\<forall>e\<in>{100, 120 :: int}. \<bar>[100, 120] ! n - 111\<bar> \<le> \<bar>e - 111\<bar>) \<and>
      locate_nframe ((test_pipeline 2 1 10)
        \<lparr>processing := [(100, [Some \<lparr>getTimestampNanoseconds = 100, payload = 7\<rparr>, None]),
                        (120, [Some \<lparr>getTimestampNanoseconds = 120, payload = 8\<rparr>, None])]\<rparr>) 111 =
      Inr ([(100, [Some \<lparr>getTimestampNanoseconds = 100, payload = 7\<rparr>, None]),
            (120, [Some \<lparr>getTimestampNanoseconds = 120, payload = 8\<rparr>, None])], n))"
proof -
  let ?m = "[(100 :: int, [Some \<lparr>getTimestampNanoseconds = 100, payload = 7 :: nat\<rparr>, None]),
             (120, [Some \<lparr>getTimestampNanoseconds = 120, payload = 8\<rparr>, None])]"
  let ?s = "(test_pipeline 2 1 10)\<lparr>processing := ?m\<rparr>"
  have inv: "pipeline_inv ?s" by (rule example_pipeline_inv)
  have rep: "diffs_representable (processing ?s) 111"
    by (simp add: diffs_representable_def INT64_MIN_def INT64_MAX_def)
  have ne: "processing ?s \<noteq> []" by simp
  from locate_nearest_or_new [OF inv rep, THEN conjunct2, THEN mp, OF ne]
  obtain n where n: "n < length (processing ?s)"
    "\<forall>e\<in>set (processing ?s). \<bar>fst (processing ?s ! n) - 111\<bar> \<le> \<bar>fst e - 111\<bar>"
    "if \<bar>fst (processing ?s ! n) - 111\<bar> \<le> timestamp_tolerance_ns ?s
     then locate_nframe ?s 111 = Inr (processing ?s, n)
     else (\<exists>it\<le>length (processing ?s). locate_nframe ?s 111 =
             Inr (take it (processing ?s) @ (111, replicate (length (pipelines ?s)) None) #
                  drop it (processing ?s), it) \<and>
             map_ok (take it (processing ?s) @ (111, replicate (length (pipelines ?s)) None) #
                  drop it (processing ?s)))"
    by blast
  from n(1) have "n = 0 \<or> n = 1" by auto
  with n(2) have n1: "n = 1" by auto
  have tol: "timestamp_tolerance_ns ?s = 10" by (simp add: test_pipeline_def)
  from n(3) n1 tol have "locate_nframe ?s 111 = Inr (?m, 1)" by simp
  with inv rep show ?thesis by (intro conjI exI[of _ 1]) simp_all
qed

text \<open>C10. When the frame's timestamp lies strictly between two adjacent entries of the
  processing map and is equally far from both (and the differences do not overflow), the
  search selects the earlier entry, the one with the smaller reference timestamp: the
  later candidate replaces the earlier one only when its difference is strictly smaller.
  When that common difference is within the tolerance, the frame goes to the earlier
  bundle.\<close>

theorem tie_selects_earlier:
  assumes inv: "pipeline_inv s" and rep: "diffs_representable (processing s) ts"
    and adj: "Suc i < length (processing s)"
    and below: "fst (processing s ! i) < ts" and above: "ts < fst (processing s ! Suc i)"
    and tie: "ts - fst (processing s ! i) = fst (processing s ! Suc i) - ts"
  shows "find_nframe (timestamp_tolerance_ns s) (processing s) ts =
           Inr (i, timestamp_tolerance_ns s < ts - fst (processing s ! i)) \<and>
         (ts - fst (processing s ! i) \<le> timestamp_tolerance_ns s \<longrightarrow>
            locate_nframe s ts = Inr (processing s, i))"
proof -
  let ?m = "processing s" and ?tol = "timestamp_tolerance_ns s"
  from inv have ok: "map_ok ?m" by (rule pipeline_invD)
  from adj have ne: "?m \<noteq> []" by auto
  from find_nframe_defined[OF ne rep] obtain r where r: "find_nframe ?tol ?m ts = Inr r" by blast
  from find_nframe_nearest[OF ok ne r] obtain n where n: "n < length ?m"
    "r = (n, ?tol < \<bar>fst (?m ! n) - ts\<bar>)"
    "\<forall>j<length ?m. \<bar>fst (?m ! n) - ts\<bar> \<le> \<bar>fst (?m ! j) - ts\<bar>"
    "\<forall>j<n. \<bar>fst (?m ! n) - ts\<bar> < \<bar>fst (?m ! j) - ts\<bar>" by blast
  from n(3) adj have "\<bar>fst (?m ! n) - ts\<bar> \<le> \<bar>fst (?m ! i) - ts\<bar>" by simp
  with below have le_i: "\<bar>fst (?m ! n) - ts\<bar> \<le> ts - fst (?m ! i)" by linarith
  have "n = i"
  proof (rule ccontr)
    assume "n \<noteq> i"
    then consider "n < i" | "n = Suc i" | "Suc i < n" by linarith
    then show False
    proof cases
      case 1
      with adj have "fst (?m ! n) < fst (?m ! i)" by (intro map_ok_nth_less[OF ok]) simp_all
      with le_i below show False by linarith
    next
      case 2
      with n(4) have "\<bar>fst (?m ! Suc i) - ts\<bar> < \<bar>fst (?m ! i) - ts\<bar>" by simp
      with tie below above show False by linarith
    next
      case 3
      with n(1) have "fst (?m ! Suc i) < fst (?m ! n)" by (intro map_ok_nth_less[OF ok]) simp_all
      with le_i tie above show False by linarith
    qed
  qed
  with r n(2) below have f: "find_nframe ?tol ?m ts = Inr (i, ?tol < ts - fst (?m ! i))"
    by simp
  then have "locate_nframe s ts = Inr (?m, i)" if "ts - fst (?m ! i) \<le> ?tol"
    using that by (simp add: locate_nframe_def)
  with f show ?thesis by blast
qed

theorem tie_selects_earlier_witness:
  "pipeline_inv ((test_pipeline 2 1 10)
      \<lparr>processing := [(100, [Some \<lparr>getTimestampNanoseconds = 100, payload = 7\<rparr>, None]),
                      (120, [Some \<lparr>getTimestampNanoseconds = 120, payload = 8\<rparr>, None])]\<rparr>) \<and>
   diffs_representable
      [(100, [Some \<lparr>getTimestampNanoseconds = 100, payload = 7\<rparr>, None]),
       (120, [Some \<lparr>getTimestampNanoseconds = 120, payload = 8\<rparr>, None])] 110 \<and>
   find_nframe 10
      [(100, [Some \<lparr>getTimestampNanoseconds = 100, payload = 7\<rparr>, None]),
       (120, [Some \<lparr>getTimestampNanoseconds = 120, payload = 8\<rparr>, None])] 110 = Inr (0, False) \<and>
   locate_nframe ((test_pipeline 2 1 10)
      \<lparr>processing := [(100, [Some \<lparr>getTimestampNanoseconds = 100, payload = 7\<rparr>, None]),
                      (120, [Some \<lparr>getTimestampNanoseconds = 120, payload = 8\<rparr>, None])]\<rparr>) 110 =
     Inr ([(100, [Some \<lparr>getTimestampNanoseconds = 100, payload = 7\<rparr>, None]),
           (120, [Some \<lparr>getTimestampNanoseconds = 120, payload = 8\<rparr>, None])], 0)"
proof -
  let ?m = "[(100 :: int, [Some \<lparr>getTimestampNanoseconds = 100, payload = 7 :: nat\<rparr>, None]),
             (120, [Some \<lparr>getTimestampNanoseconds = 120, payload = 8\<rparr>, None])]"
  let ?s = "(test_pipeline 2 1 10)\<lparr>processing := ?m\<rparr>"
  have inv: "pipeline_inv ?s" by (rule example_pipeline_inv)
  have rep: "diffs_representable (processing ?s) 110"
    by (simp add: diffs_representable_def INT64_MIN_def INT64_MAX_def)
  from inv rep tie_selects_earlier [OF inv rep, of 0]
  show ?thesis by (simp add: test_pipeline_def)
qed

subsection \<open>Installing the frame and moving a complete bundle\<close>

lemma map_erase_update: "map_erase (m[it := x]) it = map_erase m it"
  by (simp add: map_erase_def)

lemma work_locked_eq:
  assumes loc: "locate_nframe s (getTimestampNanoseconds frame) = Inr (proc, it)"
    and it: "it < length proc"
    and idx: "camera_index < length (snd (proc ! it))"
  shows "work_locked s camera_index frame =
           Inr (if all_set ((snd (proc ! it))[camera_index := Some frame])
                then s\<lparr>log_warnings :=
                         (if snd (proc ! it) ! camera_index \<noteq> None
                          then Suc (log_warnings s) else log_warnings s),
                       completed :=
                         fst (map_insert (fst (proc ! it), (snd (proc ! it))[camera_index := Some frame])
                                (completed s)),
                       processing := map_erase proc it,
                       cv_new_nframe := Suc (cv_new_nframe s)\<rparr>
                else s\<lparr>log_warnings :=
                         (if snd (proc ! it) ! camera_index \<noteq> None
                          then Suc (log_warnings s) else log_warnings s),
                       processing :=
                         proc[it := (fst (proc ! it), (snd (proc ! it))[camera_index := Some frame])]\<rparr>)"
  using assms
  by (simp add: work_locked_def install_frame_def getFrameShared_def setFrame_def
      move_if_complete_def all_received_all_set map_erase_update Let_def)

lemma nth_inserted: "it \<le> length m \<Longrightarrow> (take it m @ x # drop it m) ! it = x"
  by (simp add: nth_append)

lemma all_set_replicate_None: "0 < n \<Longrightarrow> \<not> all_set (replicate n None)"
  by (cases n) (simp_all add: all_set_def)

lemma locate_nframe_slot:
  assumes inv: "pipeline_inv s" and loc: "locate_nframe s ts = Inr (proc, it)"
  shows "it < length proc \<and> map_ok proc \<and>
         length (snd (proc ! it)) = length (pipelines s) \<and> \<not> all_set (snd (proc ! it))"
proof -
  from inv obtain oc where oc: "0 < numCameras oc" "numCameras oc = length (pipelines s)"
    "map_ok (processing s)"
    "list_all (\<lambda>e. length (snd e) = numCameras oc \<and> \<not> all_set (snd e)) (processing s)"
    by (rule pipeline_invD)
  from inv loc show ?thesis
  proof (cases rule: locate_nframe_cases)
    case reuse
    with oc show ?thesis by (simp add: list_all_length)
  next
    case create
    with oc show ?thesis by (simp add: nth_inserted all_set_replicate_None)
  qed
qed

lemma key_not_in_erased:
  assumes "map_ok m" "it < length m"
  shows "fst (m ! it) \<notin> fst ` set (map_erase m it)"
proof
  assume "fst (m ! it) \<in> fst ` set (map_erase m it)"
  then have "fst (m ! it) \<in> fst ` (set m - {m ! it})"
    using set_map_erase[OF assms] by simp
  then obtain e where e0: "fst (m ! it) = fst e" "e \<in> set m - {m ! it}" by (rule imageE)
  then have e: "e \<in> set m" "e \<noteq> m ! it" "fst e = fst (m ! it)" by simp_all
  from e(1) obtain j where j: "j < length m" "m ! j = e" by (auto simp: in_set_conv_nth)
  with e(2) have "j \<noteq> it" by auto
  with map_ok_distinct[OF assms(1)] j(1) assms(2) have "fst (m ! j) \<noteq> fst (m ! it)"
    by (simp add: distinct_conv_nth)
  with j e(3) show False by simp
qed

lemma set_inserted: "set (take it m @ x # drop it m) = insert x (set m)"
proof -
  have "set m = set (take it m) \<union> set (drop it m)"
    by (metis append_take_drop_id set_append)
  then show ?thesis by auto
qed

lemma map_insert_cases:
  assumes "map_ok m"
  shows "if fst kv \<in> fst ` set m then fst (map_insert kv m) = m
         else set (fst (map_insert kv m)) = insert kv (set m) \<and> map_ok (fst (map_insert kv m))"
proof (cases "fst kv \<in> fst ` set m")
  case True
  with map_insert_present[OF assms, of kv] show ?thesis by auto
next
  case False
  from map_insert_fresh[OF assms False] obtain it
    where i: "map_insert kv m = (take it m @ kv # drop it m, it, True)"
      "map_ok (take it m @ kv # drop it m)" by blast
  then have f: "fst (map_insert kv m) = take it m @ kv # drop it m" by simp
  have "set (fst (map_insert kv m)) = insert kv (set m)" unfolding f by (rule set_inserted)
  moreover have "map_ok (fst (map_insert kv m))" unfolding f by (rule i(2))
  ultimately show ?thesis using False by simp
qed

lemma work_locked_result:
  assumes inv: "pipeline_inv s"
    and loc: "locate_nframe s (getTimestampNanoseconds frame) = Inr (proc, it)"
    and idx: "camera_index < length (pipelines s)"
  shows "\<exists>s'. work_locked s camera_index frame = Inr s' \<and>
     log_warnings s' =
       (if snd (proc ! it) ! camera_index \<noteq> None then Suc (log_warnings s) else log_warnings s) \<and>
     (if all_set ((snd (proc ! it))[camera_index := Some frame])
      then processing s' = map_erase proc it \<and>
           set (processing s') = set proc - {proc ! it} \<and>
           fst (proc ! it) \<notin> fst ` set (processing s') \<and>
           (if fst (proc ! it) \<in> fst ` set (completed s)
            then completed s' = completed s
            else set (completed s') =
                   insert (fst (proc ! it), (snd (proc ! it))[camera_index := Some frame])
                     (set (completed s)) \<and>
                 map_ok (completed s')) \<and>
           cv_new_nframe s' = Suc (cv_new_nframe s)
      else processing s' =
             proc[it := (fst (proc ! it), (snd (proc ! it))[camera_index := Some frame])] \<and>
           (fst (proc ! it), (snd (proc ! it))[camera_index := Some frame]) \<in> set (processing s') \<and>
           completed s' = completed s \<and>
           cv_new_nframe s' = cv_new_nframe s)"
proof -
  from locate_nframe_slot[OF inv loc] have it: "it < length proc" and ok: "map_ok proc"
    and len: "length (snd (proc ! it)) = length (pipelines s)" by simp_all
  from inv have okc: "map_ok (completed s)" by (rule pipeline_invD)
  let ?nf = "(snd (proc ! it))[camera_index := Some frame]"
  note eq = work_locked_eq[OF loc it, of camera_index, unfolded len, OF idx]
  show ?thesis
  proof (cases "all_set ?nf")
    case True
    from map_insert_cases[OF okc, of "(fst (proc ! it), ?nf)"]
    have "if fst (proc ! it) \<in> fst ` set (completed s)
          then fst (map_insert (fst (proc ! it), ?nf) (completed s)) = completed s
          else set (fst (map_insert (fst (proc ! it), ?nf) (completed s))) =
                 insert (fst (proc ! it), ?nf) (set (completed s)) \<and>
               map_ok (fst (map_insert (fst (proc ! it), ?nf) (completed s)))"
      by simp
    with True eq set_map_erase[OF ok it] key_not_in_erased[OF ok it]
    show ?thesis by (simp split: if_splits)
  next
    case False
    with eq it show ?thesis by (simp add: set_update_memI)
  qed
qed

subsection \<open>The invariant holds in every reachable state\<close>

lemma ctor_establishes_inv:
  assumes c: "VisualNPipeline_ctor num_threads ps input_cs output_cs tol = Inr s"
    and t: "tol \<le> INT64_MAX"
  shows "pipeline_inv s"
proof -
  from c obtain ic oc where io: "input_cs = Some ic" "output_cs = Some oc"
    by (auto simp: VisualNPipeline_ctor_def split: option.splits)
  from c io have n: "0 < numCameras ic" "numCameras ic = numCameras oc"
    "numCameras ic = length ps" "0 \<le> tol" and cp: "check_pipelines ps ic oc 0 = Inr ()"
    and s: "s = \<lparr> pipelines = ps, input_camera_system = input_cs,
                    output_camera_system = output_cs, timestamp_tolerance_ns = tol,
                    processing = [], completed = [], thread_pool = [],
                    num_threads_of = num_threads, cv_new_nframe = 0, log_warnings = 0 \<rparr>"
    by (auto simp: VisualNPipeline_ctor_def split: if_splits sum.splits)
  from cp n have "list_all (pipeline_matches ps ic oc) [0..<length ps]"
    by (simp add: check_pipelines_eq split: if_splits)
  then have "list_all (\<lambda>p. p \<noteq> None) ps"
    by (auto simp: list_all_length pipeline_matches_def split: option.splits)
  with n t io s show ?thesis
    by (simp add: pipeline_inv_def map_ok_def is_int64_def INT64_MIN_def)
qed

lemma processImage_inv: "pipeline_inv s \<Longrightarrow> pipeline_inv (processImage s camera_index img timestamp)"
  by (auto simp: pipeline_inv_def processImage_def split: option.splits)

lemma getNext_inv:
  assumes "pipeline_inv s"
  shows "pipeline_inv (snd (getNext s))"
proof (cases "completed s = []")
  case True
  with assms show ?thesis by (simp add: getNext_empty)
next
  case False
  then obtain e m where "completed s = e # m" by (cases "completed s") auto
  with assms show ?thesis
    by (auto simp: getNext_nonempty pipeline_inv_def map_ok_Cons split: option.splits)
qed

lemma map_ok_filter: "map_ok m \<Longrightarrow> map_ok (filter P m)"
  by (induction m) (auto simp: map_ok_Cons map_ok_Nil)

lemma getLatestAndClear_inv:
  assumes "pipeline_inv s"
  shows "pipeline_inv (snd (getLatestAndClear s))"
proof (cases "completed s = []")
  case True
  with assms show ?thesis by (simp add: getLatestAndClear_def)
next
  case False
  from assms have "map_ok (processing s)" by (rule pipeline_invD)
  from getLatestAndClear_eq[OF False this] assms show ?thesis
    by (auto simp: pipeline_inv_def map_ok_filter map_ok_Nil list_all_iff split: option.splits)
qed

lemma locate_nframe_entries:
  assumes inv: "pipeline_inv s" and loc: "locate_nframe s ts = Inr (proc, it)"
  shows "\<forall>e\<in>set proc. length (snd e) = length (pipelines s) \<and> \<not> all_set (snd e)"
proof -
  from inv obtain oc where oc: "0 < numCameras oc" "numCameras oc = length (pipelines s)"
    "list_all (\<lambda>e. length (snd e) = numCameras oc \<and> \<not> all_set (snd e)) (processing s)"
    by (rule pipeline_invD)
  from inv loc show ?thesis
  proof (cases rule: locate_nframe_cases)
    case reuse
    with oc show ?thesis by (simp add: list_all_iff)
  next
    case create
    have "set proc = insert (ts, replicate (length (pipelines s)) None) (set (processing s))"
      unfolding create(2) by (rule set_inserted)
    with oc show ?thesis by (auto simp: list_all_iff all_set_replicate_None)
  qed
qed

lemma work_locked_inv:
  assumes inv: "pipeline_inv s" and idx: "camera_index < length (pipelines s)"
    and w: "work_locked s camera_index frame = Inr s'"
  shows "pipeline_inv s'"
proof -
  from w obtain proc it
    where loc: "locate_nframe s (getTimestampNanoseconds frame) = Inr (proc, it)"
    by (cases "locate_nframe s (getTimestampNanoseconds frame)")
       (auto simp: work_locked_def)
  from locate_nframe_slot[OF inv loc] have it: "it < length proc" and ok: "map_ok proc"
    and len: "length (snd (proc ! it)) = length (pipelines s)" by simp_all
  note ent = locate_nframe_entries[OF inv loc]
  from inv obtain oc where oc: "output_camera_system s = Some oc" "0 < numCameras oc"
    "numCameras oc = length (pipelines s)" "list_all (\<lambda>p. p \<noteq> None) (pipelines s)"
    "0 \<le> timestamp_tolerance_ns s" "is_int64 (timestamp_tolerance_ns s)"
    "map_ok (completed s)"
    "list_all (\<lambda>e. length (snd e) = numCameras oc \<and> all_set (snd e)) (completed s)"
    by (rule pipeline_invD)
  let ?nf = "(snd (proc ! it))[camera_index := Some frame]"
  note eq = work_locked_eq[OF loc it, of camera_index, unfolded len, OF idx]
  show ?thesis
  proof (cases "all_set ?nf")
    case True
    let ?c = "fst (map_insert (fst (proc ! it), ?nf) (completed s))"
    from map_insert_cases[OF oc(7), of "(fst (proc ! it), ?nf)"]
    have c: "map_ok ?c" "set ?c \<subseteq> insert (fst (proc ! it), ?nf) (set (completed s))"
      using oc(7) by (auto split: if_splits)
    from c(2) oc(8) True len oc(3)
    have cl: "list_all (\<lambda>e. length (snd e) = numCameras oc \<and> all_set (snd e)) ?c"
      by (auto simp: list_all_iff)
    from set_map_erase[OF ok it] ent oc(3)
    have pl: "list_all (\<lambda>e. length (snd e) = numCameras oc \<and> \<not> all_set (snd e)) (map_erase proc it)"
      by (auto simp: list_all_iff)
    from eq w True have "s' = s\<lparr>log_warnings :=
                         (if snd (proc ! it) ! camera_index \<noteq> None
                          then Suc (log_warnings s) else log_warnings s),
                       completed := ?c, processing := map_erase proc it,
                       cv_new_nframe := Suc (cv_new_nframe s)\<rparr>"
      by simp
    with oc c(1) cl pl map_ok_erase[OF ok, of it] show ?thesis
      by (simp add: pipeline_inv_def)
  next
    case False
    let ?p = "proc[it := (fst (proc ! it), ?nf)]"
    have "set ?p \<subseteq> insert (fst (proc ! it), ?nf) (set proc)" by (rule set_update_subset_insert)
    with ent False len oc(3)
    have pl: "list_all (\<lambda>e. length (snd e) = numCameras oc \<and> \<not> all_set (snd e)) ?p"
      by (auto simp: list_all_iff)
    from eq w False have "s' = s\<lparr>log_warnings :=
                         (if snd (proc ! it) ! camera_index \<noteq> None
                          then Suc (log_warnings s) else log_warnings s),
                       processing := ?p\<rparr>"
      by simp
    with oc pl ok it show ?thesis
      by (simp add: pipeline_inv_def map_ok_update)
  qed
qed

lemma work_inv:
  assumes inv: "pipeline_inv s" and w: "work s camera_index img timestamp = Inr s'"
  shows "pipeline_inv s'"
proof -
  from w have idx: "camera_index < length (pipelines s)"
    by (auto simp: work_def split: if_splits)
  from w idx obtain p :: VisualPipeline
    where "work_locked s camera_index (processImage_of p img timestamp) = Inr s'"
    by (cases "pipelines s ! camera_index") (auto simp: work_def)
  with inv idx show ?thesis by (rule work_locked_inv)
qed

lemma run_tasks_inv:
  "pipeline_inv s \<Longrightarrow> run_tasks s tasks = Inr s' \<Longrightarrow> pipeline_inv s'"
proof (induction tasks arbitrary: s)
  case Nil
  then show ?case by simp
next
  case (Cons task rest)
  obtain i img t where task: "task = (i, img, t)" by (cases task)
  with Cons.prems(2) obtain s1 where s1: "work s i img t = Inr s1" "run_tasks s1 rest = Inr s'"
    by (cases "work s i img t") auto
  from work_inv[OF Cons.prems(1) s1(1)] s1(2) show ?case by (rule Cons.IH)
qed

text \<open>C3. A frame is installed into the bundle at position \<open>it\<close> of the map \<open>proc\<close> that the
  search (and the insertion, if any) produced. If the bundle then has every slot filled,
  its entry is erased from the processing map, all other entries staying, the condition
  variable is notified, and the bundle is inserted into the completion queue under the
  same key, unless the completion queue already has an entry with that key: in that case
  the completion queue is left as it is. If a slot is still empty, the bundle stays in the
  processing map, and the completion queue and the condition variable are untouched.\<close>

theorem complete_bundle_moves:
  assumes inv: "pipeline_inv s"
    and loc: "locate_nframe s (getTimestampNanoseconds frame) = Inr (proc, it)"
    and idx: "camera_index < length (pipelines s)"
  shows "\<exists>s'. work_locked s camera_index frame = Inr s' \<and>
     (if all_set ((snd (proc ! it))[camera_index := Some frame])
      then processing s' = map_erase proc it \<and>
           set (processing s') = set proc - {proc ! it} \<and>
           fst (proc ! it) \<notin> fst ` set (processing s') \<and>
           (if fst (proc ! it) \<in> fst ` set (completed s)
            then completed s' = completed s
            else set (completed s') =
                   insert (fst (proc ! it), (snd (proc ! it))[camera_index := Some frame])
                     (set (completed s)) \<and>
                 map_ok (completed s')) \<and>
           cv_new_nframe s' = Suc (cv_new_nframe s)
      else processing s' =
             proc[it := (fst (proc ! it), (snd (proc ! it))[camera_index := Some frame])] \<and>
           (fst (proc ! it), (snd (proc ! it))[camera_index := Some frame]) \<in> set (processing s') \<and>
           completed s' = completed s \<and>
           cv_new_nframe s' = cv_new_nframe s)"
  using work_locked_result[OF assms] by blast

lemma example_open_locate:
  "locate_nframe ((test_pipeline 2 1 10)
      \<lparr>processing := [(100, [Some \<lparr>getTimestampNanoseconds = 100, payload = 7\<rparr>, None]),
                      (120, [Some \<lparr>getTimestampNanoseconds = 120, payload = 8\<rparr>, None])]\<rparr>) 105 =
     Inr ([(100, [Some \<lparr>getTimestampNanoseconds = 100, payload = 7\<rparr>, None]),
           (120, [Some \<lparr>getTimestampNanoseconds = 120, payload = 8\<rparr>, None])], 0)"
  by (simp add: run_defs)

theorem complete_bundle_moves_witness:
  "pipeline_inv ((test_pipeline 2 1 10)
      \<lparr>processing := [(100, [Some \<lparr>getTimestampNanoseconds = 100, payload = 7\<rparr>, None]),
                      (120, [Some \<lparr>getTimestampNanoseconds = 120, payload = 8\<rparr>, None])]\<rparr>) \<and>
   (\<exists>s'. work_locked ((test_pipeline 2 1 10)
      \<lparr>processing := [(100, [Some \<lparr>getTimestampNanoseconds = 100, payload = 7\<rparr>, None]),
                      (120, [Some \<lparr>getTimestampNanoseconds = 120, payload = 8\<rparr>, None])]\<rparr>)
          1 \<lparr>getTimestampNanoseconds = 105, payload = 9\<rparr> = Inr s' \<and>
      processing s' = [(120, [Some \<lparr>getTimestampNanoseconds = 120, payload = 8\<rparr>, None])] \<and>
      set (completed s') =
        {(100, [Some \<lparr>getTimestampNanoseconds = 100, payload = 7\<rparr>,
                Some \<lparr>getTimestampNanoseconds = 105, payload = 9\<rparr>])} \<and>
      cv_new_nframe s' = 1)"
proof -
  let ?m = "[(100 :: int, [Some \<lparr>getTimestampNanoseconds = 100, payload = 7 :: nat\<rparr>, None]),
             (120, [Some \<lparr>getTimestampNanoseconds = 120, payload = 8\<rparr>, None])]"
  let ?s = "(test_pipeline 2 1 10)\<lparr>processing := ?m\<rparr>"
  let ?f = "\<lparr>getTimestampNanoseconds = 105, payload = 9 :: nat\<rparr>"
  have inv: "pipeline_inv ?s" by (rule example_pipeline_inv)
  have loc: "locate_nframe ?s (getTimestampNanoseconds ?f) = Inr (?m, 0)"
    using example_open_locate by simp
  have idx: "1 < length (pipelines ?s)" by (simp add: test_pipeline_def)
  from complete_bundle_moves [OF inv loc idx] inv
  show ?thesis by (auto simp: all_set_def map_erase_def test_pipeline_def)
qed

theorem completed_bundle_not_inserted_counterexample:
  "run_tasks (test_pipeline 1 1 0) [(0, 7, 100)] =
     Inr ((test_pipeline 1 1 0)
            \<lparr>completed := [(100, [Some \<lparr>getTimestampNanoseconds = 100, payload = 7\<rparr>])],
             cv_new_nframe := 1\<rparr>) \<and>
   work ((test_pipeline 1 1 0)
            \<lparr>completed := [(100, [Some \<lparr>getTimestampNanoseconds = 100, payload = 7\<rparr>])],
             cv_new_nframe := 1\<rparr>) 0 8 100 =
     Inr ((test_pipeline 1 1 0)
            \<lparr>completed := [(100, [Some \<lparr>getTimestampNanoseconds = 100, payload = 7\<rparr>])],
             cv_new_nframe := 2\<rparr>) \<and>
   all_set [Some \<lparr>getTimestampNanoseconds = 100, payload = 8\<rparr>] \<and>
   (100, [Some \<lparr>getTimestampNanoseconds = 100, payload = 8\<rparr>]) \<notin>
     set [(100 :: int, [Some \<lparr>getTimestampNanoseconds = 100, payload = 7 :: nat\<rparr>])]"
  by (simp add: run_defs all_set_def)

lemma all_set_overwrite:
  assumes "i < length nf" "nf ! i \<noteq> None"
  shows "all_set (nf[i := Some f]) = all_set nf"
proof -
  have "(nf[i := Some f] ! j \<noteq> None) = (nf ! j \<noteq> None)" if "j < length nf" for j
    using assms that by (cases "j = i") simp_all
  then show ?thesis by (simp add: all_set_def list_all_length)
qed

text \<open>C8. When the slot of the frame's camera is already occupied in the bundle the frame
  goes to, the critical section does not fail: it logs one warning and overwrites the
  slot. Afterwards the bundle, still in the processing map under its key, holds the new
  frame at that slot and every other slot as before; no other entry, the completion queue
  and the condition variable are unchanged.\<close>

theorem occupied_slot_overwritten:
  assumes inv: "pipeline_inv s"
    and loc: "locate_nframe s (getTimestampNanoseconds frame) = Inr (proc, it)"
    and idx: "camera_index < length (pipelines s)"
    and occ: "snd (proc ! it) ! camera_index = Some old"
  shows "\<exists>s'. work_locked s camera_index frame = Inr s' \<and>
     proc = processing s \<and>
     processing s' =
       (processing s)[it := (fst (processing s ! it),
                               (snd (processing s ! it))[camera_index := Some frame])] \<and>
     snd (processing s' ! it) ! camera_index = Some frame \<and>
     (\<forall>j. j \<noteq> camera_index \<longrightarrow> snd (processing s' ! it) ! j = snd (processing s ! it) ! j) \<and>
     length (snd (processing s' ! it)) = length (snd (processing s ! it)) \<and>
     completed s' = completed s \<and>
     cv_new_nframe s' = cv_new_nframe s \<and>
     log_warnings s' = Suc (log_warnings s)"
proof -
  from locate_nframe_slot[OF inv loc] have it: "it < length proc"
    and len: "length (snd (proc ! it)) = length (pipelines s)"
    and inc: "\<not> all_set (snd (proc ! it))" by simp_all
  have reuse: "proc = processing s"
    using inv loc
  proof (cases rule: locate_nframe_cases)
    case reuse
    then show ?thesis by simp
  next
    case create
    with idx have "snd (proc ! it) ! camera_index = None" by (simp add: nth_inserted)
    with occ show ?thesis by simp
  qed
  from idx len occ have "all_set ((snd (proc ! it))[camera_index := Some frame]) = all_set (snd (proc ! it))"
    by (intro all_set_overwrite) simp_all
  with inc have ninc: "\<not> all_set ((snd (proc ! it))[camera_index := Some frame])" by simp
  from work_locked_result[OF inv loc idx] ninc occ obtain s' where s':
    "work_locked s camera_index frame = Inr s'"
    "log_warnings s' = Suc (log_warnings s)"
    "processing s' = proc[it := (fst (proc ! it), (snd (proc ! it))[camera_index := Some frame])]"
    "completed s' = completed s" "cv_new_nframe s' = cv_new_nframe s"
    by auto
  from s'(3) it idx len reuse
  have "snd (processing s' ! it) ! camera_index = Some frame"
    "\<forall>j. j \<noteq> camera_index \<longrightarrow> snd (processing s' ! it) ! j = snd (processing s ! it) ! j"
    "length (snd (processing s' ! it)) = length (snd (processing s ! it))"
    by simp_all
  with s' reuse show ?thesis by simp
qed

theorem occupied_slot_overwritten_witness:
  "pipeline_inv ((test_pipeline 2 1 10)
      \<lparr>processing := [(100, [Some \<lparr>getTimestampNanoseconds = 100, payload = 7\<rparr>, None]),
                      (120, [Some \<lparr>getTimestampNanoseconds = 120, payload = 8\<rparr>, None])]\<rparr>) \<and>
   (\<exists>s'. work_locked ((test_pipeline 2 1 10)
      \<lparr>processing := [(100, [Some \<lparr>getTimestampNanoseconds = 100, payload = 7\<rparr>, None]),
                      (120, [Some \<lparr>getTimestampNanoseconds = 120, payload = 8\<rparr>, None])]\<rparr>)
          0 \<lparr>getTimestampNanoseconds = 105, payload = 9\<rparr> = Inr s' \<and>
      processing s' = [(100, [Some \<lparr>getTimestampNanoseconds = 105, payload = 9\<rparr>, None]),
                       (120, [Some \<lparr>getTimestampNanoseconds = 120, payload = 8\<rparr>, None])] \<and>
      completed s' = [] \<and> cv_new_nframe s' = 0 \<and> log_warnings s' = 1)"
proof -
  let ?m = "[(100 :: int, [Some \<lparr>getTimestampNanoseconds = 100, payload = 7 :: nat\<rparr>, None]),
             (120, [Some \<lparr>getTimestampNanoseconds = 120, payload = 8\<rparr>, None])]"
  let ?s = "(test_pipeline 2 1 10)\<lparr>processing := ?m\<rparr>"
  let ?f = "\<lparr>getTimestampNanoseconds = 105, payload = 9 :: nat\<rparr>"
  have inv: "pipeline_inv ?s" by (rule example_pipeline_inv)
  have loc: "locate_nframe ?s (getTimestampNanoseconds ?f) = Inr (?m, 0)"
    using example_open_locate by simp
  have idx: "0 < length (pipelines ?s)" by (simp add: test_pipeline_def)
  have occ: "snd (?m ! 0) ! 0 = Some \<lparr>getTimestampNanoseconds = 100, payload = 7\<rparr>" by simp
  from occupied_slot_overwritten [OF inv loc idx occ] inv
  show ?thesis by (auto simp: test_pipeline_def)
qed

text \<open>C9. When the bundle becomes complete while the completion queue already has an entry
  with the same reference timestamp, the new bundle is dropped: its entry is erased from
  the processing map, the completion queue is exactly what it was (it keeps the bundle
  stored earlier under that key), and the condition variable is notified all the same.\<close>

theorem duplicate_completion_discarded:
  assumes inv: "pipeline_inv s"
    and loc: "locate_nframe s (getTimestampNanoseconds frame) = Inr (proc, it)"
    and idx: "camera_index < length (pipelines s)"
    and full: "all_set ((snd (proc ! it))[camera_index := Some frame])"
    and dup: "fst (proc ! it) \<in> fst ` set (completed s)"
  shows "\<exists>s'. work_locked s camera_index frame = Inr s' \<and>
     completed s' = completed s \<and>
     processing s' = map_erase proc it \<and>
     fst (proc ! it) \<notin> fst ` set (processing s') \<and>
     cv_new_nframe s' = Suc (cv_new_nframe s)"
  using work_locked_result[OF inv loc idx] full dup by auto

theorem duplicate_completion_discarded_witness:
  "pipeline_inv ((test_pipeline 1 1 0)
      \<lparr>completed := [(100, [Some \<lparr>getTimestampNanoseconds = 100, payload = 7\<rparr>])],
       cv_new_nframe := 1\<rparr>) \<and>
   (\<exists>s'. work_locked ((test_pipeline 1 1 0)
      \<lparr>completed := [(100, [Some \<lparr>getTimestampNanoseconds = 100, payload = 7\<rparr>])],
       cv_new_nframe := 1\<rparr>) 0 \<lparr>getTimestampNanoseconds = 100, payload = 8\<rparr> = Inr s' \<and>
      completed s' = [(100, [Some \<lparr>getTimestampNanoseconds = 100, payload = 7\<rparr>])] \<and>
      processing s' = [] \<and> cv_new_nframe s' = 2)"
proof -
  let ?s = "(test_pipeline 1 1 0)
      \<lparr>completed := [(100, [Some \<lparr>getTimestampNanoseconds = 100, payload = 7\<rparr>])],
       cv_new_nframe := 1\<rparr>"
  let ?f = "\<lparr>getTimestampNanoseconds = 100, payload = 8 :: nat\<rparr>"
  have inv: "pipeline_inv ?s"
    by (simp add: pipeline_inv_def test_pipeline_def createTestNCamera_def numCameras_def
        map_ok_def all_set_def is_int64_def INT64_MIN_def INT64_MAX_def NullVisualPipeline_def)
  have loc: "locate_nframe ?s (getTimestampNanoseconds ?f) = Inr ([(100, [None])], 0)"
    by (simp add: run_defs)
  have idx: "0 < length (pipelines ?s)" by (simp add: test_pipeline_def)
  have full: "all_set ((snd ([(100 :: int, [None])] ! 0))[0 := Some ?f])" by (simp add: all_set_def)
  have dup: "fst ([(100 :: int, [None :: VisualFrame option])] ! 0) \<in> fst ` set (completed ?s)" by simp
  from duplicate_completion_discarded [OF inv loc idx full dup] inv
  show ?thesis by (auto simp: map_erase_def test_pipeline_def)
qed

subsection \<open>\<open>processImage\<close> and the index check of \<open>work\<close>\<close>

lemma work_task_frame:
  assumes inv: "pipeline_inv s" and idx: "camera_index < length (pipelines s)"
  shows "work s camera_index img timestamp =
           work_locked s camera_index (task_frame (pipelines s) (camera_index, img, timestamp))"
proof -
  from inv have "list_all (\<lambda>p. p \<noteq> None) (pipelines s)" by (rule pipeline_invD)
  with idx obtain p where "pipelines s ! camera_index = Some p"
    by (auto simp: list_all_length)
  with idx show ?thesis by (simp add: work_def task_frame_def)
qed

lemma work_index_too_large:
  "length (pipelines s) < camera_index \<Longrightarrow> work s camera_index img timestamp = Inl CheckFailure"
  by (simp add: work_def)

text \<open>An index equal to the number of cameras passes \<open>CHECK_LE\<close>; the task then reads
  \<open>pipelines_\<close> one past its end.\<close>

lemma work_index_equal_size:
  "work s (length (pipelines s)) img timestamp = Inl OutOfRangeAccess"
  by (simp add: work_def)

lemma work_defined:
  assumes inv: "pipeline_inv s" and idx: "camera_index < length (pipelines s)"
    and rep: "diffs_representable (processing s)
                (task_timestamp (pipelines s) (camera_index, img, timestamp))"
  shows "\<exists>s'. work s camera_index img timestamp = Inr s'"
proof -
  let ?f = "task_frame (pipelines s) (camera_index, img, timestamp)"
  from locate_nframe_defined[OF inv rep] obtain proc it
    where loc: "locate_nframe s (getTimestampNanoseconds ?f) = Inr (proc, it)"
    by (auto simp: task_timestamp_def)
  from work_locked_result[OF inv loc idx] work_task_frame[OF inv idx, of img timestamp]
  show ?thesis by auto
qed

text \<open>C1. \<open>processImage\<close> does not look at the camera index: whatever the index, it
  enqueues one task on the thread pool and changes neither the processing map nor the
  completion queue, and it cannot fail. The index is checked later, at the start of the
  task: for every index greater than the number of cameras the task stops on the failed
  check, before the critical section; every index smaller than the number of cameras
  passes, and the task then succeeds unless a timestamp difference overflows.\<close>

theorem processImage_enqueues_unchecked:
  "processing (processImage s camera_index img timestamp) = processing s \<and>
   completed (processImage s camera_index img timestamp) = completed s \<and>
   thread_pool (processImage s camera_index img timestamp) =
     thread_pool s @ [(camera_index, img, timestamp)] \<and>
   (length (pipelines s) < camera_index \<longrightarrow>
      work s camera_index img timestamp = Inl CheckFailure) \<and>
   (pipeline_inv s \<and> camera_index < length (pipelines s) \<and>
    diffs_representable (processing s)
      (task_timestamp (pipelines s) (camera_index, img, timestamp)) \<longrightarrow>
      (\<exists>s'. work s camera_index img timestamp = Inr s'))"
  using work_index_too_large[of s camera_index img timestamp]
    work_defined[of s camera_index img timestamp]
  by (auto simp: processImage_def)

lemma test_pipeline_inv:
  assumes "0 < num_cameras" "0 \<le> tol" "tol \<le> INT64_MAX"
  shows "pipeline_inv (test_pipeline num_cameras num_threads tol)"
  using assms
  by (simp add: pipeline_inv_def test_pipeline_def createTestNCamera_def numCameras_def
      map_ok_def is_int64_def INT64_MIN_def INT64_MAX_def list_all_iff)

theorem processImage_enqueues_unchecked_witness:
  "pipeline_inv (test_pipeline 1 1 0) \<and>
   diffs_representable (processing (test_pipeline 1 1 0))
     (task_timestamp (pipelines (test_pipeline 1 1 0)) (0, 7, 100)) \<and>
   thread_pool (processImage (test_pipeline 1 1 0) 0 7 100) = [(0, 7, 100)] \<and>
   (\<exists>s'. work (test_pipeline 1 1 0) 0 7 100 = Inr s') \<and>
   work (test_pipeline 1 1 0) 2 7 100 = Inl CheckFailure"
proof -
  have inv: "pipeline_inv (test_pipeline 1 1 0)"
    by (rule test_pipeline_inv) (simp_all add: INT64_MAX_def)
  have rep: "diffs_representable (processing (test_pipeline 1 1 0))
     (task_timestamp (pipelines (test_pipeline 1 1 0)) (0, 7, 100))"
    by (simp add: diffs_representable_def test_pipeline_def)
  have len: "length (pipelines (test_pipeline 1 1 0)) = 1" by (simp add: test_pipeline_def)
  have tp: "thread_pool (test_pipeline 1 1 0) = []" by (simp add: test_pipeline_def)
  from inv rep len tp
    processImage_enqueues_unchecked [of "test_pipeline 1 1 0" 0 7 100]
    processImage_enqueues_unchecked [of "test_pipeline 1 1 0" 2 7 100]
  show ?thesis by simp
qed

theorem processImage_out_of_range_counterexample:
  "createTestVisualNPipeline 1 1 0 = Inr (test_pipeline 1 1 0) \<and>
   length (pipelines (test_pipeline 1 1 0)) = 1 \<and>
   processImage (test_pipeline 1 1 0) 2 7 100 =
     (test_pipeline 1 1 0)\<lparr>thread_pool := [(2, 7, 100)]\<rparr>"
  by (simp add: createTestVisualNPipeline_eq processImage_def) (simp add: test_pipeline_def)

subsection \<open>One frame per camera\<close>

lemma all_set_nth: "all_set nf = (\<forall>j<length nf. nf ! j \<noteq> None)"
  by (simp add: all_set_def list_all_length)

lemma within_tolerance_representable:
  assumes "\<bar>a - b\<bar> \<le> tol" "is_int64 tol"
  shows "INT64_MIN < a - b \<and> a - b \<le> INT64_MAX"
  using assms by (simp add: is_int64_def INT64_MIN_def INT64_MAX_def) linarith

lemma locate_nframe_single:
  assumes p: "processing s = [(t0, nf)]"
    and near: "\<bar>t0 - ts\<bar> \<le> timestamp_tolerance_ns s"
    and tol: "is_int64 (timestamp_tolerance_ns s)"
  shows "locate_nframe s ts = Inr ([(t0, nf)], 0)"
proof -
  from within_tolerance_representable[OF near tol]
  have "abs_diff t0 ts = Inr \<bar>t0 - ts\<bar>" by (simp add: abs_diff_representable)
  with p near show ?thesis by (simp add: locate_nframe_def find_nframe_def Let_def)
qed

lemma work_on_open_bundle:
  assumes inv: "pipeline_inv s" and p: "processing s = [(t0, nf)]"
    and idx: "camera_index < length (pipelines s)"
    and near: "\<bar>t0 - task_timestamp (pipelines s) (camera_index, img, timestamp)\<bar>
                 \<le> timestamp_tolerance_ns s"
    and empty: "nf ! camera_index = None"
  shows "work s camera_index img timestamp =
           Inr (if all_set (nf[camera_index := Some (task_frame (pipelines s) (camera_index, img, timestamp))])
                then s\<lparr>completed :=
                         fst (map_insert
                                (t0, nf[camera_index := Some (task_frame (pipelines s) (camera_index, img, timestamp))])
                                (completed s)),
                       processing := [],
                       cv_new_nframe := Suc (cv_new_nframe s)\<rparr>
                else s\<lparr>processing :=
                         [(t0, nf[camera_index := Some (task_frame (pipelines s) (camera_index, img, timestamp))])]\<rparr>)"
proof -
  let ?f = "task_frame (pipelines s) (camera_index, img, timestamp)"
  from inv have tol: "is_int64 (timestamp_tolerance_ns s)" by (rule pipeline_invD)
  from near have loc: "locate_nframe s (getTimestampNanoseconds ?f) = Inr ([(t0, nf)], 0)"
    unfolding task_timestamp_def by (intro locate_nframe_single p tol)
  from locate_nframe_slot[OF inv loc] idx have len: "camera_index < length (snd ([(t0, nf)] ! 0))"
    by simp
  from work_locked_eq[OF loc _ len] empty work_task_frame[OF inv idx, of img timestamp]
  show ?thesis by (simp add: map_erase_def)
qed

lemma work_on_empty:
  assumes inv: "pipeline_inv s" and p: "processing s = []"
    and idx: "camera_index < length (pipelines s)"
  shows "work s camera_index img timestamp =
           Inr (if all_set ((replicate (length (pipelines s)) None)
                              [camera_index := Some (task_frame (pipelines s) (camera_index, img, timestamp))])
                then s\<lparr>completed :=
                         fst (map_insert
                                (task_timestamp (pipelines s) (camera_index, img, timestamp),
                                 (replicate (length (pipelines s)) None)
                                   [camera_index := Some (task_frame (pipelines s) (camera_index, img, timestamp))])
                                (completed s)),
                       processing := [],
                       cv_new_nframe := Suc (cv_new_nframe s)\<rparr>
                else s\<lparr>processing :=
                         [(task_timestamp (pipelines s) (camera_index, img, timestamp),
                           (replicate (length (pipelines s)) None)
                             [camera_index := Some (task_frame (pipelines s) (camera_index, img, timestamp))])]\<rparr>)"
proof -
  let ?f = "task_frame (pipelines s) (camera_index, img, timestamp)"
  from inv obtain oc where oc: "output_camera_system s = Some oc"
    "numCameras oc = length (pipelines s)" by (rule pipeline_invD)
  from locate_nframe_empty[OF oc(1) p, of "getTimestampNanoseconds ?f"] oc(2)
  have loc: "locate_nframe s (getTimestampNanoseconds ?f) =
               Inr ([(getTimestampNanoseconds ?f, replicate (length (pipelines s)) None)], 0)"
    by simp
  from idx have len: "camera_index <
      length (snd ([(getTimestampNanoseconds ?f, replicate (length (pipelines s)) (None :: VisualFrame option))] ! 0))"
    by simp
  from work_locked_eq[OF loc _ len] idx work_task_frame[OF inv idx, of img timestamp]
  show ?thesis by (simp add: map_erase_def task_timestamp_def)
qed

lemma pipeline_inv_open:
  assumes inv: "pipeline_inv s" and len: "length nf = length (pipelines s)"
    and inc: "\<not> all_set nf"
  shows "pipeline_inv (s\<lparr>processing := [(t0, nf)]\<rparr>)"
  using assms by (auto simp: pipeline_inv_def map_ok_def split: option.splits)

lemma run_tasks_fill:
  assumes "pipeline_inv s" "processing s = [(t0, nf)]" "completed s = []"
    and "distinct (map fst tasks)"
    and "set (map fst tasks) = {j. j < length nf \<and> nf ! j = None}"
    and "\<forall>task\<in>set tasks. \<bar>t0 - task_timestamp (pipelines s) task\<bar> \<le> timestamp_tolerance_ns s"
  shows "\<exists>s' nf'. run_tasks s tasks = Inr s' \<and> processing s' = [] \<and>
           completed s' = [(t0, nf')] \<and> length nf' = length nf \<and>
           (\<forall>task\<in>set tasks. nf' ! fst task = Some (task_frame (pipelines s) task)) \<and>
           (\<forall>j<length nf. j \<notin> fst ` set tasks \<longrightarrow> nf' ! j = nf ! j)"
  using assms
proof (induction tasks arbitrary: s nf)
  case Nil
  from Nil.prems(1,2) have "\<not> all_set nf"
    by (auto elim!: pipeline_invD)
  with Nil.prems(5) show ?case by (auto simp: all_set_nth)
next
  case (Cons task rest)
  obtain i img t where task: "task = (i, img, t)" by (cases task)
  let ?ps = "pipelines s"
  let ?f = "task_frame ?ps (i, img, t)"
  let ?nf = "nf[i := Some ?f]"
  note inv = Cons.prems(1) and p = Cons.prems(2) and c = Cons.prems(3)
  from inv p have len: "length nf = length ?ps" by (auto elim!: pipeline_invD)
  from Cons.prems(5) task have i: "i < length nf" "nf ! i = None" by auto
  from Cons.prems(4) task have fresh: "i \<notin> fst ` set rest" "distinct (map fst rest)" by auto
  have slots: "set (map fst rest) = {j. j < length ?nf \<and> ?nf ! j = None}"
  proof -
    have "{j. j < length ?nf \<and> ?nf ! j = None} = {j. j < length nf \<and> nf ! j = None} - {i}"
      using i by (auto simp: nth_list_update)
    also have "\<dots> = set (map fst (task # rest)) - {i}" using Cons.prems(5) by simp
    also have "\<dots> = set (map fst rest)" using fresh task by auto
    finally show ?thesis by simp
  qed
  have full: "all_set ?nf = (rest = [])"
  proof -
    have "all_set ?nf = ({j. j < length ?nf \<and> ?nf ! j = None} = {})"
      by (auto simp: all_set_nth)
    also have "\<dots> = (set (map fst rest) = {})" by (simp only: slots)
    also have "\<dots> = (rest = [])" by simp
    finally show ?thesis .
  qed
  from Cons.prems(6) task
  have near: "\<bar>t0 - task_timestamp ?ps (i, img, t)\<bar> \<le> timestamp_tolerance_ns s" by simp
  from i len have idx: "i < length ?ps" by simp
  note w = work_on_open_bundle[OF inv p idx near i(2)]
  show ?case
  proof (cases "rest = []")
    case True
    with w full c task
    have "run_tasks s (task # rest) =
            Inr (s\<lparr>completed := [(t0, ?nf)], processing := [],
                   cv_new_nframe := Suc (cv_new_nframe s)\<rparr>)"
      by simp
    with True task i show ?thesis by (auto simp: nth_list_update)
  next
    case False
    let ?s1 = "s\<lparr>processing := [(t0, ?nf)]\<rparr>"
    from w full False task have r: "run_tasks s (task # rest) = run_tasks ?s1 rest" by simp
    have inv1: "pipeline_inv ?s1"
      using inv len full False by (intro pipeline_inv_open) simp_all
    have near1: "\<forall>task\<in>set rest. \<bar>t0 - task_timestamp (pipelines ?s1) task\<bar> \<le> timestamp_tolerance_ns ?s1"
      using Cons.prems(6) by simp
    from Cons.IH[OF inv1 _ _ fresh(2) slots near1] c
    obtain s' nf' where s': "run_tasks ?s1 rest = Inr s'" "processing s' = []"
      "completed s' = [(t0, nf')]" "length nf' = length ?nf"
      "\<forall>task\<in>set rest. nf' ! fst task = Some (task_frame ?ps task)"
      "\<forall>j<length ?nf. j \<notin> fst ` set rest \<longrightarrow> nf' ! j = ?nf ! j"
      by auto
    from s'(6) i fresh(1) have "nf' ! i = Some ?f" by simp
    moreover from s'(6) have "\<forall>j<length nf. j \<notin> fst ` set (task # rest) \<longrightarrow> nf' ! j = nf ! j"
      using task by (auto simp: nth_list_update)
    ultimately show ?thesis using r s' task by auto
  qed
qed

text \<open>C6. On a constructed pipeline with \<open>N\<close> cameras whose processing map and completion
  queue are empty, run one task per camera, in any order (the camera indices of the task
  list are exactly \<open>0..N-1\<close>, each once), where the timestamps of the produced frames are
  pairwise within the tolerance. Then every task succeeds, the processing map is empty
  at the end, and the completion queue holds exactly one bundle: it is keyed by the
  timestamp of the frame delivered first, has \<open>N\<close> slots, all filled, and slot \<open>i\<close> holds
  the frame produced for camera \<open>i\<close>.\<close>

theorem one_frame_per_camera_completes:
  assumes inv: "pipeline_inv s" and fresh: "processing s = []" "completed s = []"
    and cams: "distinct (map fst tasks)" "set (map fst tasks) = {..<length (pipelines s)}"
    and near: "\<forall>a\<in>set tasks. \<forall>b\<in>set tasks.
        \<bar>task_timestamp (pipelines s) a - task_timestamp (pipelines s) b\<bar>
          \<le> timestamp_tolerance_ns s"
  shows "\<exists>s' nf. run_tasks s tasks = Inr s' \<and> processing s' = [] \<and>
           completed s' = [(task_timestamp (pipelines s) (hd tasks), nf)] \<and>
           length nf = length (pipelines s) \<and> all_set nf \<and>
           (\<forall>task\<in>set tasks. nf ! fst task = Some (task_frame (pipelines s) task))"
proof -
  let ?ps = "pipelines s" and ?N = "length (pipelines s)"
  from inv have N: "0 < ?N" by (auto elim!: pipeline_invD)
  with cams(2) have "tasks \<noteq> []" by auto
  then obtain task rest where tasks: "tasks = task # rest" by (cases tasks) auto
  obtain i img t where task: "task = (i, img, t)" by (cases task)
  let ?f = "task_frame ?ps (i, img, t)" and ?t0 = "task_timestamp ?ps (i, img, t)"
  let ?nf = "(replicate ?N None)[i := Some ?f]"
  from cams(2) tasks task have idx: "i < ?N" by auto
  from cams(1) tasks task have nin: "i \<notin> fst ` set rest" and dist: "distinct (map fst rest)"
    by auto
  have slots: "set (map fst rest) = {j. j < length ?nf \<and> ?nf ! j = None}"
  proof -
    have "{j. j < length ?nf \<and> ?nf ! j = None} = {..<?N} - {i}"
      using idx by (auto simp: nth_list_update)
    also have "\<dots> = set (map fst tasks) - {i}" using cams(2) by simp
    also have "\<dots> = set (map fst rest)" using nin tasks task by auto
    finally show ?thesis by simp
  qed
  have full: "all_set ?nf = (rest = [])"
  proof -
    have "all_set ?nf = ({j. j < length ?nf \<and> ?nf ! j = None} = {})"
      by (auto simp: all_set_nth)
    also have "\<dots> = (set (map fst rest) = {})" by (simp only: slots)
    also have "\<dots> = (rest = [])" by simp
    finally show ?thesis .
  qed
  note w = work_on_empty[OF inv fresh(1) idx, of img t]
  have "\<exists>s' nf. run_tasks s tasks = Inr s' \<and> processing s' = [] \<and>
           completed s' = [(?t0, nf)] \<and> length nf = ?N \<and> nf ! i = Some ?f \<and>
           (\<forall>task\<in>set rest. nf ! fst task = Some (task_frame ?ps task))"
  proof (cases "rest = []")
    case True
    with w full fresh(2) tasks task
    have "run_tasks s tasks =
            Inr (s\<lparr>completed := [(?t0, ?nf)], processing := [],
                   cv_new_nframe := Suc (cv_new_nframe s)\<rparr>)"
      by simp
    with True idx show ?thesis by simp
  next
    case False
    let ?s1 = "s\<lparr>processing := [(?t0, ?nf)]\<rparr>"
    from w full False tasks task have r: "run_tasks s tasks = run_tasks ?s1 rest" by simp
    have inv1: "pipeline_inv ?s1"
      using inv full False by (intro pipeline_inv_open) simp_all
    have near1: "\<forall>task\<in>set rest.
        \<bar>?t0 - task_timestamp (pipelines ?s1) task\<bar> \<le> timestamp_tolerance_ns ?s1"
      using near tasks task by simp
    from run_tasks_fill[OF inv1 _ _ dist slots near1] fresh(2)
    obtain s' nf' where s': "run_tasks ?s1 rest = Inr s'" "processing s' = []"
      "completed s' = [(?t0, nf')]" "length nf' = length ?nf"
      "\<forall>task\<in>set rest. nf' ! fst task = Some (task_frame ?ps task)"
      "\<forall>j<length ?nf. j \<notin> fst ` set rest \<longrightarrow> nf' ! j = ?nf ! j"
      by auto
    from s'(6) idx nin have "nf' ! i = Some ?f" by simp
    with r s' show ?thesis by auto
  qed
  then obtain s' nf where s': "run_tasks s tasks = Inr s'" "processing s' = []"
    "completed s' = [(?t0, nf)]" "length nf = ?N" "nf ! i = Some ?f"
    "\<forall>task\<in>set rest. nf ! fst task = Some (task_frame ?ps task)"
    by blast
  have all: "\<forall>task\<in>set tasks. nf ! fst task = Some (task_frame ?ps task)"
    using s'(5,6) tasks task by simp
  have "all_set nf"
    unfolding all_set_nth
  proof (intro allI impI)
    fix j assume "j < length nf"
    with s'(4) cams(2) have "j \<in> fst ` set tasks" by auto
    with all show "nf ! j \<noteq> None" by auto
  qed
  with s' all tasks task show ?thesis by simp
qed

lemma test_pipeline_fields:
  "length (pipelines (test_pipeline n k tol)) = n"
  "timestamp_tolerance_ns (test_pipeline n k tol) = tol"
  "processing (test_pipeline n k tol) = []"
  "completed (test_pipeline n k tol) = []"
  by (simp_all add: test_pipeline_def)

lemma test_pipeline_task_frame:
  "i < n \<Longrightarrow> task_frame (pipelines (test_pipeline n k tol)) (i, img, t) =
     \<lparr>getTimestampNanoseconds = t, payload = img\<rparr>"
  by (simp add: task_frame_def test_pipeline_def NullVisualPipeline_def)

theorem one_frame_per_camera_completes_witness:
  "pipeline_inv (test_pipeline 2 1 10) \<and>
   distinct (map fst [(1, 8, 105), (0 :: nat, 7 :: nat, 100 :: int)]) \<and>
   set (map fst [(1, 8, 105), (0 :: nat, 7 :: nat, 100 :: int)]) = {..<2} \<and>
   (\<exists>s'. run_tasks (test_pipeline 2 1 10) [(1, 8, 105), (0, 7, 100)] = Inr s' \<and>
      processing s' = [] \<and>
      completed s' = [(105, [Some \<lparr>getTimestampNanoseconds = 100, payload = 7\<rparr>,
                             Some \<lparr>getTimestampNanoseconds = 105, payload = 8\<rparr>])])"
proof -
  let ?s = "test_pipeline 2 1 10"
  let ?tasks = "[(1, 8, 105), (0 :: nat, 7 :: nat, 100 :: int)]"
  have inv: "pipeline_inv ?s" by (rule test_pipeline_inv) (simp_all add: INT64_MAX_def)
  have fresh: "processing ?s = []" "completed ?s = []" by (simp_all add: test_pipeline_fields)
  have len: "length (pipelines ?s) = 2" by (simp add: test_pipeline_fields)
  have cams: "distinct (map fst ?tasks)" "set (map fst ?tasks) = {..<length (pipelines ?s)}"
    unfolding len by auto
  have tf: "task_frame (pipelines ?s) (1, 8, 105) = \<lparr>getTimestampNanoseconds = 105, payload = 8\<rparr>"
    "task_frame (pipelines ?s) (0, 7, 100) = \<lparr>getTimestampNanoseconds = 100, payload = 7\<rparr>"
    by (simp_all only: test_pipeline_task_frame one_less_numeral_iff zero_less_numeral
        semiring_norm)
  have tt: "task_timestamp (pipelines ?s) (1, 8, 105) = 105"
    "task_timestamp (pipelines ?s) (0, 7, 100) = 100"
    by (simp_all only: task_timestamp_def tf VisualFrame.simps)
  have near: "\<forall>a\<in>set ?tasks. \<forall>b\<in>set ?tasks.
        \<bar>task_timestamp (pipelines ?s) a - task_timestamp (pipelines ?s) b\<bar>
          \<le> timestamp_tolerance_ns ?s"
    by (simp add: tt test_pipeline_fields del: One_nat_def)
  from one_frame_per_camera_completes [OF inv fresh cams near]
  obtain s' nf where s': "run_tasks ?s ?tasks = Inr s'" "processing s' = []"
    "completed s' = [(task_timestamp (pipelines ?s) (hd ?tasks), nf)]"
    "length nf = length (pipelines ?s)"
    "\<forall>task\<in>set ?tasks. nf ! fst task = Some (task_frame (pipelines ?s) task)"
    by blast
  from s'(5) have "nf ! 0 = Some \<lparr>getTimestampNanoseconds = 100, payload = 7\<rparr>"
    "nf ! 1 = Some \<lparr>getTimestampNanoseconds = 105, payload = 8\<rparr>"
    by (simp_all add: tf del: One_nat_def)
  with s'(4) have nf: "nf = [Some \<lparr>getTimestampNanoseconds = 100, payload = 7\<rparr>,
                             Some \<lparr>getTimestampNanoseconds = 105, payload = 8\<rparr>]"
    unfolding len by (cases nf; cases "tl nf") auto
  have "completed s' = [(105, nf)]" using s'(3) by (simp add: tt del: One_nat_def)
  with s'(1,2) nf inv cams len show ?thesis by (auto simp del: One_nat_def)
qed

end
